theory Spec2Isabelle
  imports Main "HOL-Library.Word"
begin

unbundle bit_operations_syntax

section \<open>Compiler builtins (builtins.h)\<close>

text \<open>
  The header builtins.h is not among the source files; the functions below model what
  its wrappers around the compiler intrinsics compute.  Modelled from the spec:
  \<open>popcount\<close> is the number of set bits ("count (popcount)") and \<open>ctz\<close> the position
  of the least set bit ("least-bit").  \<open>bits_of\<close> lists the positions of the set bits in
  ascending order; it is the abstraction the loops over bit masks are verified against.
  For the argument 0 the C intrinsic \<open>ctz\<close> is undefined; the model returns the width.
\<close>

definition bits_of :: "'a::len word \<Rightarrow> nat list" where
  "bits_of w = filter (bit w) [0..<LENGTH('a)]"

definition ctz :: "'a::len word \<Rightarrow> nat" where
  "ctz w = length (takeWhile (\<lambda>n. \<not> bit w n) [0..<LENGTH('a)])"

definition ctzll :: "64 word \<Rightarrow> nat" where
  "ctzll w = ctz w"

definition popcount :: "'a::len word \<Rightarrow> nat" where
  "popcount w = length (filter (bit w) [0..<LENGTH('a)])"

subsection \<open>Clearing the least set bit: \<open>w & (w - 1)\<close>\<close>

lemma nat_and_pred_bit:
  "n \<noteq> 0 \<Longrightarrow> bit (n AND (n - 1)) i \<longleftrightarrow> bit n i \<and> (\<exists>j<i. bit n j)" for n :: nat
proof (induction i arbitrary: n)
  case 0
  have "even n \<or> even (n - 1)" using 0 by (cases n) simp_all
  then have "even (n AND (n - 1))" by (simp only: even_and_iff)
  then show ?case by (simp only: bit_0) simp
next
  case (Suc i)
  show ?case
  proof (cases "odd n")
    case True
    then obtain m where m: "n = Suc (2 * m)" by (auto elim!: oddE)
    have "(n - 1) div 2 = n div 2" unfolding m by simp
    then have "bit (n AND (n - 1)) (Suc i) \<longleftrightarrow> bit n (Suc i)"
      unfolding bit_and_iff [of n "n - 1"] bit_Suc [of n] bit_Suc [of "n - 1"] by simp
    moreover have "bit n 0" using True by (simp add: bit_0)
    then have "\<exists>j<Suc i. bit n j" by (intro exI[of _ 0]) simp
    ultimately show ?thesis by simp
  next
    case False
    then obtain m where m: "n = 2 * m" by (auto elim!: evenE)
    with Suc.prems have mz: "m \<noteq> 0" by simp
    then obtain k where k: "m = Suc k" by (cases m) auto
    have nz: "n div 2 \<noteq> 0" using mz m by simp
    have d: "(n - 1) div 2 = n div 2 - 1" unfolding m k by simp
    have nb0: "\<not> bit n 0" using False by (simp only: bit_0) simp
    have "bit (n AND (n - 1)) (Suc i) \<longleftrightarrow> bit ((n div 2) AND (n div 2 - 1)) i"
      unfolding bit_and_iff [of n "n - 1"] bit_and_iff [of "n div 2"]
        bit_Suc [of n] bit_Suc [of "n - 1"] d ..
    also have "\<dots> \<longleftrightarrow> bit (n div 2) i \<and> (\<exists>j<i. bit (n div 2) j)"
      by (rule Suc.IH [OF nz])
    also have "\<dots> \<longleftrightarrow> bit n (Suc i) \<and> (\<exists>j<Suc i. bit n j)"
    proof -
      have "(\<exists>j<i. bit (n div 2) j) \<longleftrightarrow> (\<exists>j<Suc i. bit n j)"
      proof
        assume "\<exists>j<i. bit (n div 2) j"
        then obtain j where "j < i" "bit (n div 2) j" by blast
        then have "Suc j < Suc i" "bit n (Suc j)" by (simp_all only: bit_Suc Suc_less_eq)
        then show "\<exists>j<Suc i. bit n j" by blast
      next
        assume "\<exists>j<Suc i. bit n j"
        then obtain j where j: "j < Suc i" "bit n j" by blast
        with nb0 have "j \<noteq> 0" by (cases "j = 0") simp_all
        then obtain k where "j = Suc k" by (cases j) auto
        with j have "k < i" "bit (n div 2) k" by (simp_all add: bit_Suc)
        then show "\<exists>j<i. bit (n div 2) j" by blast
      qed
      then show ?thesis by (simp only: bit_Suc)
    qed
    finally show ?thesis .
  qed
qed

lemma word_and_pred_bit:
  fixes w :: "'a::len word"
  assumes "w \<noteq> 0"
  shows "bit (w AND (w - 1)) i \<longleftrightarrow> bit w i \<and> (\<exists>j<i. bit w j)"
proof -
  have nz: "unat w \<noteq> 0" using assms by (simp add: unat_eq_0)
  have "bit (w AND (w - 1)) i \<longleftrightarrow> bit (unat (w AND (w - 1))) i"
    by (simp add: bit_unsigned_iff)
  also have "unat (w AND (w - 1)) = unat w AND (unat w - 1)"
    using assms by (simp add: unsigned_and_eq unat_minus_one)
  also have "bit (unat w AND (unat w - 1)) i \<longleftrightarrow> bit (unat w) i \<and> (\<exists>j<i. bit (unat w) j)"
    by (rule nat_and_pred_bit [OF nz])
  also have "\<dots> \<longleftrightarrow> bit w i \<and> (\<exists>j<i. bit w j)"
    by (simp add: bit_unsigned_iff)
  finally show ?thesis .
qed

lemma word_and_pred_less:
  fixes w :: "'a::len word"
  assumes "w \<noteq> 0"
  shows "unat (w AND (w - 1)) < unat w"
proof -
  have "w AND (w - 1) \<le> w - 1" by (rule word_and_le1)
  then have "unat (w AND (w - 1)) \<le> unat (w - 1)" by (simp add: word_le_nat_alt)
  also have "unat (w - 1) = unat w - 1" using assms by (simp add: unat_minus_one)
  also have "\<dots> < unat w" using assms by (simp add: unat_gt_0)
  finally show ?thesis .
qed

subsection \<open>The ascending list of set bits\<close>

lemma set_bits_of: "set (bits_of w) = {i. bit w i}"
  by (auto simp: bits_of_def dest: bit_imp_le_length)

lemma sorted_bits_of: "sorted (bits_of w)"
  by (simp add: bits_of_def sorted_wrt_filter)

lemma distinct_bits_of: "distinct (bits_of w)"
  by (simp add: bits_of_def)

lemma bits_of_bound: "i \<in> set (bits_of w) \<Longrightarrow> i < LENGTH('a)" for w :: "'a::len word"
  by (simp add: bits_of_def)

lemma popcount_bits_of: "popcount w = length (bits_of w)"
  by (simp add: popcount_def bits_of_def)

lemma bits_of_Nil_iff: "bits_of w = [] \<longleftrightarrow> w = 0"
proof
  assume "bits_of w = []"
  then have "set (bits_of w) = {}" by simp
  then have "\<forall>i. \<not> bit w i" by (simp add: set_bits_of)
  then show "w = 0" by (simp add: bit_eq_iff)
next
  assume "w = 0"
  then show "bits_of w = []" by (simp add: bits_of_def)
qed

lemma hd_filter_takeWhile:
  "filter P xs \<noteq> [] \<Longrightarrow>
   length (takeWhile (\<lambda>i. \<not> P i) xs) < length xs \<and>
   hd (filter P xs) = xs ! length (takeWhile (\<lambda>i. \<not> P i) xs)"
  by (induction xs) auto

lemma hd_filter_upt:
  assumes "filter P [0..<n] \<noteq> []"
  shows "hd (filter P [0..<n]) = length (takeWhile (\<lambda>i. \<not> P i) [0..<n])"
proof -
  let ?k = "length (takeWhile (\<lambda>i. \<not> P i) [0..<n])"
  from hd_filter_takeWhile [OF assms]
  have k: "?k < n" and h: "hd (filter P [0..<n]) = [0..<n] ! ?k" by simp_all
  from k have "[0..<n] ! ?k = ?k" by simp
  with h show ?thesis by simp
qed

lemma ctz_hd_bits_of: "w \<noteq> 0 \<Longrightarrow> ctz w = hd (bits_of w)" for w :: "'a::len word"
  using hd_filter_upt [of "bit w" "LENGTH('a)"] bits_of_Nil_iff [of w]
  by (simp add: ctz_def bits_of_def)

lemma filter_neq_hd_distinct:
  "distinct xs \<Longrightarrow> xs \<noteq> [] \<Longrightarrow> filter (\<lambda>i. i \<noteq> hd xs) xs = tl xs"
  by (cases xs) (auto simp: filter_id_conv)

lemma bits_of_clear_least:
  fixes w :: "'a::len word"
  assumes "w \<noteq> 0"
  shows "bits_of (w AND (w - 1)) = tl (bits_of w)"
proof -
  have ne: "bits_of w \<noteq> []" using assms by (simp add: bits_of_Nil_iff)
  have least: "bit w i \<Longrightarrow> hd (bits_of w) \<le> i" for i
  proof -
    assume "bit w i"
    then have "i \<in> set (bits_of w)" by (simp add: set_bits_of)
    with ne sorted_bits_of [of w] show ?thesis
      by (cases "bits_of w") auto
  qed
  have hdbit: "bit w (hd (bits_of w))"
    using ne set_bits_of [of w] hd_in_set [OF ne] by auto
  have eq: "bit (w AND (w - 1)) i \<longleftrightarrow> bit w i \<and> i \<noteq> hd (bits_of w)" for i
  proof -
    have "(bit w i \<and> (\<exists>j<i. bit w j)) \<longleftrightarrow> (bit w i \<and> i \<noteq> hd (bits_of w))"
    proof (cases "bit w i")
      case True
      have "(\<exists>j<i. bit w j) \<longleftrightarrow> i \<noteq> hd (bits_of w)"
      proof
        assume "\<exists>j<i. bit w j"
        then obtain j where "j < i" "bit w j" by blast
        with least [of j] show "i \<noteq> hd (bits_of w)" by simp
      next
        assume "i \<noteq> hd (bits_of w)"
        with least [OF True] have "hd (bits_of w) < i" by simp
        with hdbit show "\<exists>j<i. bit w j" by blast
      qed
      then show ?thesis by simp
    qed simp
    then show ?thesis by (simp only: word_and_pred_bit [OF assms])
  qed
  have "bits_of (w AND (w - 1)) = filter (\<lambda>i. bit w i \<and> i \<noteq> hd (bits_of w)) [0..<LENGTH('a)]"
    unfolding bits_of_def [of "w AND (w - 1)"] by (rule filter_cong) (simp_all add: eq)
  also have "\<dots> = filter (\<lambda>i. i \<noteq> hd (bits_of w)) (bits_of w)"
    by (simp add: bits_of_def [of w] conj_commute)
  also have "\<dots> = tl (bits_of w)"
    by (rule filter_neq_hd_distinct [OF distinct_bits_of ne])
  finally show ?thesis .
qed

section \<open>Tile sets (tileset.h)\<close>

text \<open>
  A tile set is an \<open>unsigned\<close> used as a bit mask over the 25 tiles, or over the 25
  grid positions.  The header tileset.h is not among the source files.  Modelled from
  the spec: "a 25-bit bitmask; bit i present iff tile i is in the set", with the
  operations "membership, count (popcount), least-bit, iteration, complement,
  add/remove"; each is written as the usual C bit expression on a 32-bit word.
\<close>

type_synonym tileset = "32 word"

definition TILE_COUNT :: nat where
  "TILE_COUNT = 25"

definition ZERO_TILE :: nat where
  "ZERO_TILE = 0"

definition EMPTY_TILESET :: tileset where
  "EMPTY_TILESET = 0"

definition FULL_TILESET :: tileset where
  "FULL_TILESET = push_bit TILE_COUNT 1 - 1"

definition tileset_has :: "tileset \<Rightarrow> nat \<Rightarrow> bool" where
  "tileset_has ts t = (ts AND push_bit t 1 \<noteq> 0)"

definition tileset_add :: "tileset \<Rightarrow> nat \<Rightarrow> tileset" where
  "tileset_add ts t = ts OR push_bit t 1"

definition tileset_remove :: "tileset \<Rightarrow> nat \<Rightarrow> tileset" where
  "tileset_remove ts t = ts AND NOT (push_bit t 1)"

definition tileset_count :: "tileset \<Rightarrow> nat" where
  "tileset_count ts = popcount ts"

definition tileset_empty :: "tileset \<Rightarrow> bool" where
  "tileset_empty ts = (ts = 0)"

definition tileset_least :: "nat \<Rightarrow> tileset" where
  "tileset_least n = push_bit n 1 - 1"

definition tileset_intersect :: "tileset \<Rightarrow> tileset \<Rightarrow> tileset" where
  "tileset_intersect a b = a AND b"

definition tileset_difference :: "tileset \<Rightarrow> tileset \<Rightarrow> tileset" where
  "tileset_difference a b = a AND NOT b"

definition tileset_complement :: "tileset \<Rightarrow> tileset" where
  "tileset_complement ts = NOT ts AND FULL_TILESET"

definition tileset_get_least :: "tileset \<Rightarrow> nat" where
  "tileset_get_least ts = ctz ts"

definition tileset_remove_least :: "tileset \<Rightarrow> tileset" where
  "tileset_remove_least ts = ts AND (ts - 1)"

text \<open>
  \<open>rankselect ts i\<close> is used by \<open>unindex_permutation\<close> to pick the tile set holding only
  the \<open>i\<close>-th least member of \<open>ts\<close>, the inverse of the digit
  \<open>count (map \<inter> tileset_least pos)\<close> that \<open>index_permutation\<close> computes.  Modelled from
  the spec ("reverses the above"): drop the least member \<open>i\<close> times, then isolate the
  least member.
\<close>

primrec rankselect :: "tileset \<Rightarrow> nat \<Rightarrow> tileset" where
  "rankselect ts 0 = tileset_difference ts (tileset_remove_least ts)"
| "rankselect ts (Suc i) = rankselect (tileset_remove_least ts) i"

subsection \<open>Ranking of tile sets (rank.c, ranktbl.c)\<close>

text \<open>
  Modelled from the spec: "for each subset size k, the number of k-subsets of a 25-set
  is precomputed" (\<open>combination_count\<close>); "rank(map) returns an integer in
  [0, C(25,k)) via the standard combinatorial number system; unrank(k, r) inverts it".
  In the combinatorial number system the set \<open>c\<^sub>1 < \<dots> < c\<^sub>k\<close> has rank
  \<open>\<Sum>i. C(c\<^sub>i, i)\<close>; \<open>next_combination\<close> steps to the set of the next rank.
\<close>

definition combination_count :: "nat \<Rightarrow> nat" where
  "combination_count k = TILE_COUNT choose k"

fun rank_list :: "nat \<Rightarrow> nat list \<Rightarrow> nat" where
  "rank_list i [] = 0"
| "rank_list i (c # cs) = (c choose i) + rank_list (Suc i) cs"

definition tileset_rank :: "tileset \<Rightarrow> nat" where
  "tileset_rank ts = rank_list 1 (bits_of ts)"

fun unrank_below :: "nat \<Rightarrow> nat \<Rightarrow> nat \<Rightarrow> tileset" where
  "unrank_below 0 k r = EMPTY_TILESET"
| "unrank_below (Suc n) k r =
     (if k = 0 then EMPTY_TILESET
      else if (n choose k) \<le> r
      then tileset_add (unrank_below n (k - 1) (r - (n choose k))) n
      else unrank_below n k r)"

definition tileset_unrank :: "nat \<Rightarrow> nat \<Rightarrow> tileset" where
  "tileset_unrank k r = unrank_below TILE_COUNT k r"

definition next_combination :: "tileset \<Rightarrow> tileset" where
  "next_combination ts = tileset_unrank (tileset_count ts) (tileset_rank ts + 1)"



subsection \<open>The zero tile's equivalence classes (tileset.c)\<close>

text \<open>
  Modelled from the spec: "within a fixed map, positions in the complement of map are
  partitioned by reachability of the zero tile without moving any non-zero tile in ts.
  A flood-fill on the complement graph under puzzle adjacency defines the classes;
  their count and a 25-element mapping are stored in idxt[maprank]."
  \<open>tileset_flood cmap g\<close> is the set of positions of \<open>cmap\<close> reachable from \<open>g\<close>: the seed
  grown by the adjacent positions inside \<open>cmap\<close> until nothing is added, at most
  \<open>TILE_COUNT\<close> times (a path never needs more steps); the neighbours of a set are its shifts by one row (5 bits) and by one column
  (1 bit, without wrapping from the right column 0x1084210 or the left column 0x0108421).  \<open>tileset_populate_eqclasses\<close> numbers the classes in the order of their least
  positions and returns the mapping and the count; positions of the map itself keep
  the entry \<open>-1\<close>.
\<close>

definition tileset_grow :: "tileset \<Rightarrow> tileset \<Rightarrow> tileset" where
  "tileset_grow cmap r =
     cmap AND (r OR push_bit 1 (r AND NOT 0x1084210) OR drop_bit 1 (r AND NOT 0x0108421)
                 OR push_bit 5 r OR drop_bit 5 r)"

fun flood_loop :: "nat \<Rightarrow> tileset \<Rightarrow> tileset \<Rightarrow> tileset" where
  "flood_loop 0 cmap r = r"
| "flood_loop (Suc n) cmap r =
     (let r' = tileset_grow cmap r in if r' = r then r else flood_loop n cmap r')"

definition tileset_flood :: "tileset \<Rightarrow> nat \<Rightarrow> tileset" where
  "tileset_flood cmap g = flood_loop TILE_COUNT cmap (tileset_add EMPTY_TILESET g)"

lemma bit_tileset_grow_mono: "bit cmap i \<Longrightarrow> bit r i \<Longrightarrow> bit (tileset_grow cmap r) i"
  by (simp add: tileset_grow_def bit_or_iff bit_and_iff)

lemma bit_flood_loop:
  "bit cmap i \<Longrightarrow> bit r i \<Longrightarrow> bit (flood_loop n cmap r) i"
  by (induction n arbitrary: r) (simp_all add: bit_tileset_grow_mono Let_def)

lemma bit_ctz: "w \<noteq> 0 \<Longrightarrow> bit w (ctz w)" for w :: "'a::len word"
proof -
  assume w: "w \<noteq> 0"
  then have ne: "bits_of w \<noteq> []" by (simp add: bits_of_Nil_iff)
  from hd_in_set [OF ne] have "hd (bits_of w) \<in> {i. bit w i}" by (simp only: set_bits_of)
  then show ?thesis using w by (simp add: ctz_hd_bits_of)
qed

lemma ctz_less: "w \<noteq> 0 \<Longrightarrow> ctz w < LENGTH('a)" for w :: "'a::len word"
  using bit_ctz [of w] by (auto dest: bit_imp_le_length)

lemma ctz_le: "bit w i \<Longrightarrow> ctz w \<le> i" for w :: "'a::len word"
proof -
  assume b: "bit w i"
  then have w: "w \<noteq> 0" by auto
  then have ne: "bits_of w \<noteq> []" by (simp add: bits_of_Nil_iff)
  from b have "i \<in> set (bits_of w)" by (simp add: set_bits_of)
  with ne sorted_bits_of [of w] have "hd (bits_of w) \<le> i" by (cases "bits_of w") auto
  then show ?thesis using w by (simp add: ctz_hd_bits_of)
qed

lemma bit_tileset_flood_seed:
  assumes "bit cmap g"
  shows "bit (tileset_flood cmap g) g"
proof -
  have "g < 32" using bit_imp_le_length [OF assms] by simp
  then have "bit (tileset_add EMPTY_TILESET g) g"
    by (simp add: tileset_add_def EMPTY_TILESET_def bit_simps)
  with assms show ?thesis unfolding tileset_flood_def by (rule bit_flood_loop)
qed

lemma word_and_not_less:
  fixes a b :: "'a::len word"
  assumes "bit a i" "bit b i"
  shows "unat (a AND NOT b) < unat a"
proof -
  have le: "a AND NOT b \<le> a" by (rule word_and_le2)
  have "\<not> bit (a AND NOT b) i" using assms by (simp add: bit_and_iff bit_not_iff)
  with assms have "a AND NOT b \<noteq> a" by auto
  with le have "a AND NOT b < a" by simp
  then show ?thesis by (simp add: word_less_nat_alt)
qed

function populate_loop :: "tileset \<Rightarrow> int list \<Rightarrow> nat \<Rightarrow> int list \<times> nat" where
  "populate_loop cmap eqclasses n_eqclass =
     (if tileset_empty cmap then (eqclasses, n_eqclass)
      else (let eq = tileset_flood cmap (tileset_get_least cmap)
            in populate_loop (tileset_difference cmap eq)
                 (fold (\<lambda>g ec. ec[g := int n_eqclass]) (bits_of eq) eqclasses)
                 (n_eqclass + 1)))"
  by pat_completeness auto
termination
proof (relation "measure (\<lambda>(cmap, eqclasses, n_eqclass). unat cmap)")
  fix cmap :: tileset and eqclasses :: "int list" and n_eqclass :: nat and x
  assume ne: "\<not> tileset_empty cmap" and x: "x = tileset_flood cmap (tileset_get_least cmap)"
  from ne have nz: "cmap \<noteq> 0" by (simp add: tileset_empty_def)
  have b1: "bit cmap (ctz cmap)" by (rule bit_ctz [OF nz])
  from b1 have b2: "bit x (ctz cmap)" unfolding x tileset_get_least_def by (rule bit_tileset_flood_seed)
  show "((tileset_difference cmap x, fold (\<lambda>g ec. ec[g := int n_eqclass]) (bits_of x) eqclasses,
          n_eqclass + 1), cmap, eqclasses, n_eqclass)
        \<in> measure (\<lambda>(cmap, eqclasses, n_eqclass). unat cmap)"
    using word_and_not_less [OF b1 b2] by (simp add: tileset_difference_def)
qed simp

declare populate_loop.simps [simp del]

definition tileset_populate_eqclasses :: "tileset \<Rightarrow> int list \<times> nat" where
  "tileset_populate_eqclasses mp =
     populate_loop (tileset_complement mp) (replicate TILE_COUNT (- 1)) 0"


subsection \<open>Tile sets as sets of bit positions\<close>

lemma word_neq_0_bit: "w \<noteq> 0 \<longleftrightarrow> (\<exists>n. bit w n)" for w :: "'a::len word"
  by (auto simp: bit_eq_iff dest: bit_imp_le_length)

lemma bit_push_bit_1: "bit (push_bit t 1 :: tileset) i \<longleftrightarrow> i = t \<and> t < 32"
  by (auto simp: bit_simps)

lemma bit_2_power: "bit (2 ^ t :: tileset) i \<longleftrightarrow> i = t \<and> t < 32"
  by (auto simp: bit_simps)

lemma tileset_has_bit: "tileset_has tset t \<longleftrightarrow> bit tset t"
proof -
  have "tileset_has tset t \<longleftrightarrow> (\<exists>n. bit tset n \<and> n = t \<and> t < 32)"
    by (simp add: tileset_has_def word_neq_0_bit bit_and_iff bit_2_power)
  also have "\<dots> \<longleftrightarrow> bit tset t" by (auto dest: bit_imp_le_length)
  finally show ?thesis .
qed

lemma bit_tileset_add: "bit (tileset_add tset t) i \<longleftrightarrow> bit tset i \<or> (i = t \<and> t < 32)"
  by (simp add: tileset_add_def bit_or_iff bit_2_power)

lemma bit_tileset_remove: "bit (tileset_remove tset t) i \<longleftrightarrow> bit tset i \<and> i \<noteq> t"
  by (auto simp: tileset_remove_def bit_and_iff bit_not_iff bit_2_power dest: bit_imp_le_length)

lemma bit_tileset_difference: "bit (tileset_difference a b) i \<longleftrightarrow> bit a i \<and> \<not> bit b i"
  by (auto simp: tileset_difference_def bit_and_iff bit_not_iff dest: bit_imp_le_length)

lemma bit_tileset_intersect: "bit (tileset_intersect a b) i \<longleftrightarrow> bit a i \<and> bit b i"
  by (simp add: tileset_intersect_def bit_and_iff)

lemma bit_FULL_TILESET: "bit FULL_TILESET i \<longleftrightarrow> i < TILE_COUNT"
proof -
  have "FULL_TILESET = mask TILE_COUNT"
    by (simp add: FULL_TILESET_def mask_eq_exp_minus_1)
  moreover have "bit (mask TILE_COUNT :: tileset) i \<longleftrightarrow> i < TILE_COUNT"
    by (auto simp: bit_simps TILE_COUNT_def)
  ultimately show ?thesis by (simp only:)
qed

lemma bit_tileset_complement:
  "bit (tileset_complement tset) i \<longleftrightarrow> \<not> bit tset i \<and> i < TILE_COUNT"
  by (auto simp: tileset_complement_def bit_and_iff bit_not_iff bit_FULL_TILESET TILE_COUNT_def)

lemma bit_tileset_remove_least:
  "tset \<noteq> 0 \<Longrightarrow> bit (tileset_remove_least tset) i \<longleftrightarrow> bit tset i \<and> i \<noteq> tileset_get_least tset"
proof -
  assume nz: "tset \<noteq> 0"
  have "bit tset i \<and> (\<exists>j<i. bit tset j) \<longleftrightarrow> bit tset i \<and> i \<noteq> ctz tset"
  proof (cases "bit tset i")
    case True
    have "(\<exists>j<i. bit tset j) \<longleftrightarrow> i \<noteq> ctz tset"
    proof
      assume "\<exists>j<i. bit tset j"
      then obtain j where "j < i" "bit tset j" by blast
      with ctz_le [of tset j] show "i \<noteq> ctz tset" by simp
    next
      assume "i \<noteq> ctz tset"
      with ctz_le [OF True] have "ctz tset < i" by simp
      with bit_ctz [OF nz] show "\<exists>j<i. bit tset j" by blast
    qed
    then show ?thesis by simp
  qed simp
  then show ?thesis
    by (simp add: tileset_remove_least_def tileset_get_least_def word_and_pred_bit [OF nz])
qed

lemma popcount_card: "popcount w = card {i. bit w i}"
proof -
  have "popcount w = length (bits_of w)" by (rule popcount_bits_of)
  also have "\<dots> = card (set (bits_of w))" by (simp add: distinct_card distinct_bits_of)
  finally show ?thesis by (simp add: set_bits_of)
qed

lemma tileset_count_card: "tileset_count tset = card {i. bit tset i}"
  by (simp add: tileset_count_def popcount_card)

lemma finite_bits: "finite {i. bit w i}" for w :: "'a::len word"
  using finite_set [of "bits_of w"] by (simp only: set_bits_of)

lemma tileset_get_least_bit: "tset \<noteq> 0 \<Longrightarrow> bit tset (tileset_get_least tset)"
  by (simp add: tileset_get_least_def bit_ctz)

lemma tileset_get_least_le: "bit tset i \<Longrightarrow> tileset_get_least tset \<le> i"
  by (simp add: tileset_get_least_def ctz_le)

text \<open>A tile set with a single member.\<close>

lemma single_bit_get_least:
  assumes "\<forall>i. bit tset i \<longleftrightarrow> i = b"
  shows "tileset_get_least tset = b"
proof -
  from assms have b: "bit tset b" by simp
  then have "tset \<noteq> 0" by auto
  from tileset_get_least_bit [OF this] assms show ?thesis by simp
qed

lemma rankselect_bit:
  "i < tileset_count tset \<Longrightarrow> bit (rankselect tset i) j \<longleftrightarrow> j = bits_of tset ! i"
proof (induction i arbitrary: tset)
  case 0
  then have ne: "bits_of tset \<noteq> []" by (auto simp: tileset_count_def popcount_bits_of)
  then have nz: "tset \<noteq> 0" by (simp add: bits_of_Nil_iff)
  have "bits_of tset ! 0 = tileset_get_least tset"
    using ne nz by (simp add: tileset_get_least_def ctz_hd_bits_of hd_conv_nth)
  moreover have "bit (rankselect tset 0) j \<longleftrightarrow> j = tileset_get_least tset"
    using tileset_get_least_bit [OF nz]
    by (auto simp: bit_tileset_difference bit_tileset_remove_least [OF nz])
  ultimately show ?case by simp
next
  case (Suc i)
  then have ne: "bits_of tset \<noteq> []" by (auto simp: tileset_count_def popcount_bits_of)
  then have nz: "tset \<noteq> 0" by (simp add: bits_of_Nil_iff)
  have tl: "bits_of (tileset_remove_least tset) = tl (bits_of tset)"
    unfolding tileset_remove_least_def by (rule bits_of_clear_least [OF nz])
  have "i < tileset_count (tileset_remove_least tset)"
    using Suc.prems by (simp add: tileset_count_def popcount_bits_of tl)
  moreover have "tl (bits_of tset) ! i = bits_of tset ! Suc i"
    using Suc.prems by (intro nth_tl) (simp add: tileset_count_def popcount_bits_of)
  ultimately show ?case using Suc.IH [of "tileset_remove_least tset"] by (simp add: tl)
qed

lemma rankselect_member:
  assumes "i < tileset_count tset"
  shows "bit tset (bits_of tset ! i)"
proof -
  from assms have "bits_of tset ! i \<in> set (bits_of tset)"
    by (simp add: tileset_count_def popcount_bits_of)
  then show ?thesis by (simp add: set_bits_of)
qed

subsection \<open>Unranking yields a tile set of the right size\<close>

lemma popcount_tileset_add:
  assumes "\<not> bit tset n" "n < 32"
  shows "tileset_count (tileset_add tset n) = Suc (tileset_count tset)"
proof -
  have "{i. bit (tileset_add tset n) i} = insert n {i. bit tset i}"
    using assms by (auto simp: bit_tileset_add)
  then show ?thesis using assms finite_bits [of tset] by (simp add: tileset_count_card)
qed

lemma unrank_below_props:
  "n \<le> 32 \<Longrightarrow> r < (n choose k) \<Longrightarrow>
   (\<forall>i. bit (unrank_below n k r) i \<longrightarrow> i < n) \<and> tileset_count (unrank_below n k r) = k"
proof (induction n arbitrary: k r)
  case 0
  then have "k = 0" by (cases k) simp_all
  then show ?case by (simp add: EMPTY_TILESET_def tileset_count_def popcount_def)
next
  case (Suc n)
  show ?case
  proof (cases "k = 0")
    case True
    then show ?thesis by (simp add: EMPTY_TILESET_def tileset_count_def popcount_def)
  next
    case False
    then obtain k' where k: "k = Suc k'" by (cases k) auto
    show ?thesis
    proof (cases "(n choose k) \<le> r")
      case True
      from Suc.prems(2) True have "r - (n choose k) < (n choose k')"
        by (simp add: k)
      from Suc.IH [OF _ this] Suc.prems(1)
      have ih: "\<forall>i. bit (unrank_below n k' (r - (n choose k))) i \<longrightarrow> i < n"
        "tileset_count (unrank_below n k' (r - (n choose k))) = k'" by simp_all
      from ih(1) have nb: "\<not> bit (unrank_below n k' (r - (n choose k))) n" by auto
      have n32: "n < 32" using Suc.prems(1) by simp
      have "unrank_below (Suc n) k r = tileset_add (unrank_below n k' (r - (n choose k))) n"
        using True False by (simp add: k)
      then show ?thesis
        using ih popcount_tileset_add [OF nb n32] by (auto simp: bit_tileset_add k)
    next
      case False
      then have "r < (n choose k)" by simp
      from Suc.IH [OF _ this] Suc.prems(1)
      have "\<forall>i. bit (unrank_below n k r) i \<longrightarrow> i < n" "tileset_count (unrank_below n k r) = k"
        by simp_all
      moreover have "unrank_below (Suc n) k r = unrank_below n k r"
        using False \<open>k \<noteq> 0\<close> by simp
      ultimately show ?thesis by auto
    qed
  qed
qed

lemma tileset_unrank_props:
  assumes "r < combination_count k"
  shows "tileset_count (tileset_unrank k r) = k"
    and "bit (tileset_unrank k r) i \<Longrightarrow> i < TILE_COUNT"
  using unrank_below_props [of TILE_COUNT r k] assms
  by (simp_all add: tileset_unrank_def combination_count_def TILE_COUNT_def)

section \<open>Puzzle configurations (puzzle.h)\<close>

text \<open>
  \<open>struct puzzle\<close>: two arrays of \<open>TILE_COUNT\<close> bytes, \<open>tiles[t]\<close> the grid position of
  tile \<open>t\<close> and \<open>grid[g]\<close> the tile at position \<open>g\<close>.  All values stay below 32, so the
  bytes are modelled as natural numbers.  The header puzzle.h is not among the source
  files.  Modelled from the spec: "Moves mutate both tiles and grid and update the [...]
  zero location": \<open>move p dloc\<close> exchanges the zero tile with the tile at \<open>dloc\<close>, and the
  zero location is \<open>tiles[ZERO_TILE]\<close>.  A store outside an array is left out by
  \<open>list_update\<close>; the theorems below are about configurations where every access is in
  range.
\<close>

record puzzle =
  tiles :: "nat list"
  grid :: "nat list"

definition solved_puzzle :: puzzle where
  "solved_puzzle = \<lparr>tiles = [0..<TILE_COUNT], grid = [0..<TILE_COUNT]\<rparr>"

definition zero_location :: "puzzle \<Rightarrow> nat" where
  "zero_location p = tiles p ! ZERO_TILE"

definition move :: "puzzle \<Rightarrow> nat \<Rightarrow> puzzle" where
  "move p dloc =
     (let dtile = grid p ! dloc;
          zloc = zero_location p
      in \<lparr>tiles = (tiles p)[dtile := zloc, ZERO_TILE := dloc],
          grid = (grid p)[dloc := ZERO_TILE, zloc := dtile]\<rparr>)"

text \<open>The board invariants of the spec: both arrays are permutations of 0..24 and
  mutual inverses, and exactly one grid entry is the zero tile.\<close>

definition puzzle_valid :: "puzzle \<Rightarrow> bool" where
  "puzzle_valid p \<longleftrightarrow>
     length (tiles p) = TILE_COUNT \<and> length (grid p) = TILE_COUNT \<and>
     set (tiles p) = {0..<TILE_COUNT} \<and> set (grid p) = {0..<TILE_COUNT} \<and>
     (\<forall>t < TILE_COUNT. grid p ! (tiles p ! t) = t) \<and>
     (\<forall>g < TILE_COUNT. tiles p ! (grid p ! g) = g) \<and>
     length (filter (\<lambda>t. t = ZERO_TILE) (grid p)) = 1"

subsection \<open>The move table (puzzle.c)\<close>

text \<open>
  The move table of puzzle.c is not among the source files; \<open>get_moves z\<close> returns its
  row for the zero position \<open>z\<close>, four \<open>signed char\<close> entries.  Modelled from the spec: a
  move is "a grid position adjacent to the current zero position" on the 5 x 5 board.
  Each row lists the adjacent positions in ascending order (up, left, right, down: the
  order that the comments of the state tables in fsm.c fix) and is padded with \<open>-1\<close>.
  \<open>movetab_adjacent\<close> checks the table against the adjacency of the grid.
\<close>

definition movetab :: "int list list" where
  "movetab = [
     [1, 5, - 1, - 1], [0, 2, 6, - 1], [1, 3, 7, - 1], [2, 4, 8, - 1], [3, 9, - 1, - 1],
     [0, 6, 10, - 1], [1, 5, 7, 11], [2, 6, 8, 12], [3, 7, 9, 13], [4, 8, 14, - 1],
     [5, 11, 15, - 1], [6, 10, 12, 16], [7, 11, 13, 17], [8, 12, 14, 18], [9, 13, 19, - 1],
     [10, 16, 20, - 1], [11, 15, 17, 21], [12, 16, 18, 22], [13, 17, 19, 23], [14, 18, 24, - 1],
     [15, 21, - 1, - 1], [16, 20, 22, - 1], [17, 21, 23, - 1], [18, 22, 24, - 1], [19, 23, - 1, - 1]]"

definition get_moves :: "nat \<Rightarrow> int list" where
  "get_moves z = movetab ! z"

definition adjacent :: "nat \<Rightarrow> nat \<Rightarrow> bool" where
  "adjacent a b \<longleftrightarrow> a < TILE_COUNT \<and> b < TILE_COUNT \<and>
     ((a div 5 = b div 5 \<and> (a + 1 = b \<or> b + 1 = a)) \<or> a + 5 = b \<or> b + 5 = a)"

lemma movetab_adjacent:
  "movetab = map (\<lambda>z. let ns = filter (adjacent z) [0..<TILE_COUNT]
                       in map int ns @ replicate (4 - length ns) (- 1)) [0..<TILE_COUNT]"
  by code_simp

section \<open>Indices (index.h, index.c)\<close>

text \<open>
  \<open>struct index\<close> holds the permutation index (a \<open>permindex\<close>, an \<open>unsigned\<close> whose
  arithmetic wraps at 32 bits), the map rank (an \<open>unsigned\<close> only used as an array
  index, modelled as a natural number) and the signed \<open>eqidx\<close>.  \<open>struct index_table\<close>
  is one entry of the lookup table \<open>idxt\<close>; \<open>struct index_aux\<close> the per-tile-set data.
  The header index.h is not among the source files; the member \<open>tiles\<close> is read by the
  vectorised variants of \<open>tile_map\<close> with one unaligned 16-byte load and is modelled as
  16 bytes.  The member \<open>solved_parity\<close> (computed by \<open>tileset_parity\<close>, which is not
  among the sources) is not read by the functions below and is left out.  \<open>idxt\<close> is a
  pointer: \<open>None\<close> is \<open>NULL\<close>.
\<close>

record index =
  pidx :: "32 word"
  maprank :: nat
  eqidx :: int

record index_table =
  eqclasses :: "int list"
  n_eqclass :: nat
  offset :: nat

record index_aux =
  ts :: tileset
  n_tile :: nat
  n_maprank :: nat
  n_perm :: "32 word"
  aux_tiles :: "8 word list"
  idxt :: "index_table list option"

text \<open>What a C program does where the model cannot go on: it reads through a null
  pointer, or outside an array.\<close>

datatype fault = NullPointer | OutOfBounds

definition INDEX_MAX_TILES :: nat where
  "INDEX_MAX_TILES = 12"

definition factorials :: "32 word list" where
  "factorials = [1, 1, 2, 2 * 3, 2 * 3 * 4, 2 * 3 * 4 * 5, 2 * 3 * 4 * 5 * 6,
     2 * 3 * 4 * 5 * 6 * 7, 2 * 3 * 4 * 5 * 6 * 7 * 8, 2 * 3 * 4 * 5 * 6 * 7 * 8 * 9,
     2 * 3 * 4 * 5 * 6 * 7 * 8 * 9 * 10, 2 * 3 * 4 * 5 * 6 * 7 * 8 * 9 * 10 * 11,
     2 * 3 * 4 * 5 * 6 * 7 * 8 * 9 * 10 * 11 * 12]"

text \<open>
  \<open>tile_map\<close> has three bodies, chosen when the program is compiled: one for AVX2, one
  for SSE4.2 and a portable one.  The first two differ only in how the 25 bytes of
  \<open>p->grid\<close> are loaded and are one variant of the model.
\<close>

datatype tile_map_variant = Vectorised | Portable

text \<open>
  The vectorised variant.  \<open>_mm_cmpistrm\<close> with
  \<open>_SIDD_UBYTE_OPS|_SIDD_CMP_EQUAL_ANY|_SIDD_BIT_MASK\<close> is an instruction of the processor
  and not code of the repository; by its documentation both operands are strings of at
  most 16 bytes that end before their first zero byte, and bit \<open>i\<close> of the result is set
  when byte \<open>i\<close> of the second string is one of the bytes of the first.  The first operand
  is \<open>aux->tiles\<close>, the complemented numbers of the non-zero tiles of the tile set, then
  zero bytes.  The second is a half of the complemented grid, the bytes from
  location 25 on cleared by the mask.  \<open>_mm_unpacklo_epi16\<close> and \<open>_mm_cvtsi128_si32\<close> put the
  mask of the upper half into bits 16 to 31.
\<close>

definition istring :: "8 word list \<Rightarrow> 8 word list" where
  "istring bs = takeWhile (\<lambda>b. b \<noteq> 0) bs"

definition cmpistrm_equal_any :: "8 word list \<Rightarrow> 8 word list \<Rightarrow> 32 word" where
  "cmpistrm_equal_any a b =
     foldr (\<lambda>i w. w OR push_bit i 1)
       (filter (\<lambda>i. b ! i \<in> set (istring a)) [0..<length (istring b)]) 0"

definition complemented_grid :: "puzzle \<Rightarrow> 8 word list" where
  "complemented_grid p =
     map (\<lambda>g. NOT (of_nat g)) (take TILE_COUNT (grid p)) @ replicate (32 - TILE_COUNT) 0"

definition tile_map_vectorised :: "8 word list \<Rightarrow> puzzle \<Rightarrow> tileset" where
  "tile_map_vectorised tls p =
     (let maplo = cmpistrm_equal_any tls (take 16 (complemented_grid p));
          maphi = cmpistrm_equal_any tls (drop 16 (complemented_grid p))
      in maplo OR push_bit 16 maphi)"

text \<open>
  The portable variant (the \<open>#else\<close> branch):
  \<^verbatim>\<open>tileset ts = aux->ts, map = EMPTY_TILESET;
  for (; !tileset_empty(ts); ts = tileset_remove_least(ts))
          map |= 1 << p->tiles[tileset_get_least(ts)];\<close>
  The loop starts from \<open>aux->ts\<close> itself, the zero tile included when it is a member.
\<close>

function tile_map_loop :: "puzzle \<Rightarrow> tileset \<Rightarrow> tileset \<Rightarrow> tileset" where
  "tile_map_loop p tset mp =
     (if tileset_empty tset then mp
      else tile_map_loop p (tileset_remove_least tset)
             (mp OR push_bit (tiles p ! tileset_get_least tset) 1))"
  by pat_completeness auto
termination
  by (relation "measure (\<lambda>(p, tset, mp). unat tset)")
    (simp_all add: tileset_empty_def tileset_remove_least_def word_and_pred_less)

declare tile_map_loop.simps [simp del]

definition tile_map :: "tile_map_variant \<Rightarrow> index_aux \<Rightarrow> puzzle \<Rightarrow> tileset" where
  "tile_map v aux p =
     (case v of
        Vectorised \<Rightarrow> tile_map_vectorised (aux_tiles aux) p
      | Portable \<Rightarrow> tile_map_loop p (ts aux) EMPTY_TILESET)"

text \<open>
  \<open>index_permutation\<close>: the first digit is computed before the loop, every later digit
  is scaled by \<open>factor\<close>, which is multiplied by the descending \<open>n_tiles\<close>.
\<close>

function index_permutation_loop ::
  "puzzle \<Rightarrow> tileset \<Rightarrow> tileset \<Rightarrow> 32 word \<Rightarrow> 32 word \<Rightarrow> 32 word \<Rightarrow> 32 word" where
  "index_permutation_loop p tset mp factor n_tiles pi =
     (if tileset_empty tset then pi
      else (let leastidx = tileset_get_least tset;
                factor' = factor * n_tiles;
                least = tiles p ! leastidx;
                pi' = pi + factor' * of_nat (tileset_count (tileset_intersect mp (tileset_least least)))
            in index_permutation_loop p (tileset_remove_least tset) (tileset_remove mp least)
                 factor' (n_tiles - 1) pi'))"
  by pat_completeness auto
termination
  by (relation "measure (\<lambda>(p, tset, mp, factor, n_tiles, pi). unat tset)")
    (simp_all add: tileset_empty_def tileset_remove_least_def word_and_pred_less)

declare index_permutation_loop.simps [simp del]

definition index_permutation :: "tileset \<Rightarrow> tileset \<Rightarrow> puzzle \<Rightarrow> 32 word" where
  "index_permutation tset mp p =
     (if tileset_empty tset then 0
      else (let least = tiles p ! tileset_get_least tset;
                pi = of_nat (tileset_count (tileset_intersect mp (tileset_least least)))
            in index_permutation_loop p (tileset_remove_least tset) (tileset_remove mp least)
                 1 (of_nat (tileset_count tset)) pi))"

text \<open>
  \<open>compute_index\<close>.  \<open>prefetch\<close> computes an address and reads nothing.  The table
  \<open>aux->idxt\<close> is read only in the branch guarded by \<open>tileset_has(aux->ts, ZERO_TILE)\<close>;
  there a null \<open>idxt\<close>, a map rank beyond the table or a zero location beyond the
  25 entries of \<open>eqclasses\<close> is a fault.
\<close>

definition compute_index :: "tile_map_variant \<Rightarrow> index_aux \<Rightarrow> puzzle \<Rightarrow> fault + index" where
  "compute_index v aux p =
     (let tsnz = tileset_remove (ts aux) ZERO_TILE;
          mp = tile_map v aux p;
          mr = tileset_rank mp;
          pi = index_permutation tsnz mp p
      in if tileset_has (ts aux) ZERO_TILE
         then (case idxt aux of
                 None \<Rightarrow> Inl NullPointer
               | Some tbl \<Rightarrow>
                   if mr < length tbl \<and> zero_location p < length (eqclasses (tbl ! mr))
                   then Inr \<lparr>pidx = pi, maprank = mr,
                             eqidx = eqclasses (tbl ! mr) ! zero_location p\<rparr>
                   else Inl OutOfBounds)
         else Inr \<lparr>pidx = pi, maprank = mr, eqidx = - 1\<rparr>)"

text \<open>
  \<open>eqclass_from_index\<close> (index.h) is not among the source files.  Modelled from the
  spec: the class \<open>eqidx\<close> of the map with rank \<open>maprank\<close> is the set of grid positions
  that the "25-element mapping" stored in \<open>idxt[maprank]\<close> sends to \<open>eqidx\<close>.
\<close>

definition tileset_of :: "nat list \<Rightarrow> tileset" where
  "tileset_of gs = foldr (\<lambda>g w. tileset_add w g) gs EMPTY_TILESET"

definition eqclass_from_index :: "index_aux \<Rightarrow> index \<Rightarrow> fault + tileset" where
  "eqclass_from_index aux idx =
     (case idxt aux of
        None \<Rightarrow> Inl NullPointer
      | Some tbl \<Rightarrow>
          if maprank idx < length tbl
          then Inr (tileset_of (filter (\<lambda>g. eqclasses (tbl ! maprank idx) ! g = eqidx idx)
                                   [0..<TILE_COUNT]))
          else Inl OutOfBounds)"

definition canonical_zero_location :: "index_aux \<Rightarrow> index \<Rightarrow> fault + nat" where
  "canonical_zero_location aux idx =
     (case eqclass_from_index aux idx of
        Inl f \<Rightarrow> Inl f
      | Inr eq \<Rightarrow> Inr (tileset_get_least eq))"

text \<open>
  \<open>unindex_permutation\<close>: the body of the loop over the tiles \<open>i = 0, \<dots>, TILE_COUNT - 1\<close>,
  on the state \<open>(p, map, cmap, pidx, n_tiles)\<close>, and the loop itself.
\<close>

definition unindex_step ::
  "tileset \<Rightarrow> nat \<Rightarrow> puzzle \<times> tileset \<times> tileset \<times> 32 word \<times> 32 word
     \<Rightarrow> puzzle \<times> tileset \<times> tileset \<times> 32 word \<times> 32 word" where
  "unindex_step tset i st =
     (case st of (p, mp, cmap, pi, n_tiles) \<Rightarrow>
        if tileset_has tset i
        then (let cmp = unat (pi mod n_tiles);
                  tile = rankselect mp cmp;
                  pos = tileset_get_least tile
              in (\<lparr>tiles = (tiles p)[i := pos], grid = (grid p)[pos := i]\<rparr>,
                  tileset_difference mp tile, cmap, pi div n_tiles, n_tiles - 1))
        else (let pos = tileset_get_least cmap
              in (\<lparr>tiles = (tiles p)[i := pos], grid = (grid p)[pos := i]\<rparr>,
                  mp, tileset_remove_least cmap, pi, n_tiles)))"

function unindex_loop ::
  "tileset \<Rightarrow> nat \<Rightarrow> puzzle \<times> tileset \<times> tileset \<times> 32 word \<times> 32 word
     \<Rightarrow> puzzle \<times> tileset \<times> tileset \<times> 32 word \<times> 32 word" where
  "unindex_loop tset i st =
     (if i < TILE_COUNT then unindex_loop tset (i + 1) (unindex_step tset i st) else st)"
  by pat_completeness auto
termination
  by (relation "measure (\<lambda>(tset, i, st). TILE_COUNT - i)") simp_all

declare unindex_loop.simps [simp del]

definition unindex_permutation :: "puzzle \<Rightarrow> tileset \<Rightarrow> tileset \<Rightarrow> 32 word \<Rightarrow> puzzle" where
  "unindex_permutation p tset mp pi =
     fst (unindex_loop tset 0 (p, mp, tileset_complement mp, pi, of_nat (tileset_count tset)))"

text \<open>\<open>invert_index\<close>; \<open>memset(p, 0, sizeof *p)\<close> clears both arrays.\<close>

definition invert_index :: "index_aux \<Rightarrow> index \<Rightarrow> fault + puzzle" where
  "invert_index aux idx =
     (let tsnz = tileset_remove (ts aux) ZERO_TILE;
          mp = tileset_unrank (tileset_count tsnz) (maprank idx);
          p0 = \<lparr>tiles = replicate TILE_COUNT 0, grid = replicate TILE_COUNT 0\<rparr>;
          p = unindex_permutation p0 tsnz mp (pidx idx)
      in if tileset_has (ts aux) ZERO_TILE
         then (case canonical_zero_location aux idx of
                 Inl f \<Rightarrow> Inl f
               | Inr dloc \<Rightarrow> Inr (move p dloc))
         else Inr p)"

text \<open>
  \<open>make_index_table\<close> keeps the tables it has built in the global array
  \<open>index_tables\<close>, one per number of non-zero tiles; the model passes that array as a
  state.  The case that \<open>malloc\<close> fails ends the program (\<open>abort\<close>) and is not modelled.
\<close>

type_synonym index_tables = "nat \<Rightarrow> index_table list option"

fun index_table_loop :: "nat \<Rightarrow> tileset \<Rightarrow> nat \<Rightarrow> index_table list" where
  "index_table_loop 0 mp off = []"
| "index_table_loop (Suc n) mp off =
     (let (ec, ne) = tileset_populate_eqclasses mp
      in \<lparr>eqclasses = ec, n_eqclass = ne, offset = off\<rparr>
           # index_table_loop n (next_combination mp) (off + ne))"

definition make_index_table :: "tileset \<Rightarrow> index_tables \<Rightarrow> index_table list option \<times> index_tables" where
  "make_index_table tset cache =
     (if \<not> tileset_has tset ZERO_TILE then (None, cache)
      else (let tscount = tileset_count (tileset_remove tset ZERO_TILE)
            in case cache tscount of
                 Some tbl \<Rightarrow> (Some tbl, cache)
               | None \<Rightarrow>
                   (let tbl = index_table_loop (combination_count tscount) (tileset_least tscount) 0
                    in (Some tbl, cache(tscount := Some tbl)))))"

text \<open>
  \<open>make_index_aux\<close>.  The loop that fills \<open>aux->tiles\<close>:
  \<^verbatim>\<open>memset(aux->tiles, 0, sizeof aux->tiles);
  for (; !tileset_empty(tsnz); tsnz = tileset_remove_least(tsnz))
          aux->tiles[i++] = ~tileset_get_least(tsnz);\<close>
  A write beyond the 16 bytes (more than 16 non-zero tiles) is left out by \<open>list_update\<close>.
\<close>

function fill_tiles :: "tileset \<Rightarrow> nat \<Rightarrow> 8 word list \<Rightarrow> 8 word list" where
  "fill_tiles tsnz i tls =
     (if tileset_empty tsnz then tls
      else fill_tiles (tileset_remove_least tsnz) (i + 1)
             (tls[i := NOT (of_nat (tileset_get_least tsnz))]))"
  by pat_completeness auto
termination
  by (relation "measure (\<lambda>(tsnz, i, tls). unat tsnz)")
    (simp_all add: tileset_empty_def tileset_remove_least_def word_and_pred_less)

declare fill_tiles.simps [simp del]

definition make_index_aux :: "tileset \<Rightarrow> index_tables \<Rightarrow> index_aux \<times> index_tables" where
  "make_index_aux tset cache =
     (let tsnz = tileset_remove tset ZERO_TILE;
          n = tileset_count tsnz;
          (tbl, cache') = make_index_table tset cache
      in (\<lparr>ts = tset, n_tile = n, n_maprank = combination_count n,
           n_perm = factorials ! n, aux_tiles = fill_tiles tsnz 0 (replicate 16 0),
           idxt = tbl\<rparr>, cache'))"

subsection \<open>Tile sets without the zero tile need no lookup table\<close>

lemma make_index_table_no_zero:
  "\<not> tileset_has tset ZERO_TILE \<Longrightarrow> make_index_table tset cache = (None, cache)"
  by (simp add: make_index_table_def)

lemma make_index_aux_no_zero:
  assumes "\<not> tileset_has tset ZERO_TILE"
  shows "idxt (fst (make_index_aux tset cache)) = None"
    and "ts (fst (make_index_aux tset cache)) = tset"
    and "snd (make_index_aux tset cache) = cache"
  using assms by (simp_all add: make_index_aux_def make_index_table_no_zero Let_def)

lemma make_index_aux_ts: "ts (fst (make_index_aux tset cache)) = tset"
  by (simp add: make_index_aux_def Let_def split: prod.splits)

lemma compute_index_no_zero:
  assumes "\<not> tileset_has (ts aux) ZERO_TILE"
  shows "compute_index v aux p =
    Inr \<lparr>pidx = index_permutation (tileset_remove (ts aux) ZERO_TILE) (tile_map v aux p) p,
         maprank = tileset_rank (tile_map v aux p), eqidx = - 1\<rparr>"
  using assms by (simp add: compute_index_def Let_def)

lemma tile_map_idxt_update: "tile_map v (aux\<lparr>idxt := t\<rparr>) p = tile_map v aux p"
  by (simp add: tile_map_def split: tile_map_variant.splits)

text \<open>
  Claim C10.  For a tile set without the zero tile, \<open>make_index_table\<close> returns \<open>NULL\<close>
  and leaves the global table array as it was, so \<open>make_index_aux\<close> leaves \<open>aux->idxt\<close>
  equal to \<open>NULL\<close>.  \<open>compute_index\<close> on that \<open>aux\<close> does not fault (a read through the
  null \<open>idxt\<close> would be the fault \<open>NullPointer\<close>): it returns an index with \<open>eqidx = -1\<close>,
  and its result is the same whatever \<open>idxt\<close> points to, so the table is not read.  This
  holds for every variant \<open>v\<close> of \<open>tile_map\<close>.
\<close>

theorem compute_index_null_table_safe:
  assumes "\<not> tileset_has tset ZERO_TILE"
  shows "fst (make_index_table tset cache) = None
    \<and> idxt (fst (make_index_aux tset cache)) = None
    \<and> (\<exists>idx. compute_index v (fst (make_index_aux tset cache)) p = Inr idx \<and> eqidx idx = - 1)
    \<and> compute_index v (fst (make_index_aux tset cache)\<lparr>idxt := t\<rparr>) p
        = compute_index v (fst (make_index_aux tset cache)) p"
proof -
  let ?aux = "fst (make_index_aux tset cache)"
  have nz: "\<not> tileset_has (ts ?aux) ZERO_TILE"
    using assms by (simp add: make_index_aux_ts)
  have nz': "\<not> tileset_has (ts (?aux\<lparr>idxt := t\<rparr>)) ZERO_TILE"
    using nz by simp
  have a: "fst (make_index_table tset cache) = None"
    using assms by (simp add: make_index_table_no_zero)
  have b: "idxt ?aux = None" using assms by (rule make_index_aux_no_zero)
  have c: "\<exists>idx. compute_index v ?aux p = Inr idx \<and> eqidx idx = - 1"
    by (simp add: compute_index_no_zero [OF nz])
  have d: "compute_index v (?aux\<lparr>idxt := t\<rparr>) p = compute_index v ?aux p"
    unfolding compute_index_no_zero [OF nz] compute_index_no_zero [OF nz']
    by (simp add: tile_map_idxt_update)
  from a b c d show ?thesis by blast
qed

theorem compute_index_null_table_safe_witness:
  "\<not> tileset_has 2 ZERO_TILE
   \<and> idxt (fst (make_index_aux 2 (\<lambda>k. None))) = None
   \<and> compute_index Portable (fst (make_index_aux 2 (\<lambda>k. None))) solved_puzzle
       = Inr \<lparr>pidx = 0, maprank = 1, eqidx = - 1\<rparr>
   \<and> compute_index Vectorised (fst (make_index_aux 2 (\<lambda>k. None))) solved_puzzle
       = Inr \<lparr>pidx = 0, maprank = 1, eqidx = - 1\<rparr>"
proof -
  have h: "\<not> tileset_has 2 ZERO_TILE" by code_simp
  have v: "compute_index Portable (fst (make_index_aux 2 (\<lambda>k. None))) solved_puzzle
       = Inr \<lparr>pidx = 0, maprank = 1, eqidx = - 1\<rparr>" by code_simp
  have w: "compute_index Vectorised (fst (make_index_aux 2 (\<lambda>k. None))) solved_puzzle
       = Inr \<lparr>pidx = 0, maprank = 1, eqidx = - 1\<rparr>" by code_simp
  from compute_index_null_table_safe [OF h, of "\<lambda>k. None" Portable solved_puzzle None] h v w
  show ?thesis by simp
qed

subsection \<open>\<open>unindex_permutation\<close> builds a pair of inverse permutations\<close>

text \<open>The core of the board invariants: \<open>tiles\<close> maps the 25 tiles into the grid, and
  \<open>grid\<close> maps each position so reached back to its tile.\<close>

definition puzzle_inverse :: "puzzle \<Rightarrow> bool" where
  "puzzle_inverse p \<longleftrightarrow>
     length (tiles p) = TILE_COUNT \<and> length (grid p) = TILE_COUNT \<and>
     (\<forall>t < TILE_COUNT. tiles p ! t < TILE_COUNT \<and> grid p ! (tiles p ! t) = t)"

text \<open>
  The invariant of the loop of \<open>unindex_permutation\<close> before it handles tile \<open>i\<close>: the
  tiles below \<open>i\<close> are placed on positions that have left \<open>map\<close> and \<open>cmap\<close>, \<open>grid\<close> maps
  those positions back, and \<open>map\<close> and \<open>cmap\<close> hold as many positions as there are tiles
  of \<open>ts\<close> and tiles outside \<open>ts\<close> left to place.
\<close>

definition unindex_inv ::
  "tileset \<Rightarrow> nat \<Rightarrow> puzzle \<times> tileset \<times> tileset \<times> 32 word \<times> 32 word \<Rightarrow> bool" where
  "unindex_inv tset i st \<longleftrightarrow>
     (case st of (p, mp, cmap, pi, n_tiles) \<Rightarrow>
        length (tiles p) = TILE_COUNT \<and> length (grid p) = TILE_COUNT \<and>
        (\<forall>g. bit mp g \<longrightarrow> g < TILE_COUNT) \<and> (\<forall>g. bit cmap g \<longrightarrow> g < TILE_COUNT) \<and>
        (\<forall>g. \<not> (bit mp g \<and> bit cmap g)) \<and>
        (\<forall>t < i. tiles p ! t < TILE_COUNT \<and> \<not> bit mp (tiles p ! t) \<and> \<not> bit cmap (tiles p ! t)
                 \<and> grid p ! (tiles p ! t) = t) \<and>
        unat n_tiles = tileset_count mp \<and>
        tileset_count mp = card {t. i \<le> t \<and> t < TILE_COUNT \<and> bit tset t} \<and>
        tileset_count cmap = card {t. i \<le> t \<and> t < TILE_COUNT \<and> \<not> bit tset t})"

lemma card_from_Suc:
  assumes "i < n"
  shows "P i \<Longrightarrow> card {t. i \<le> t \<and> t < n \<and> P t} = Suc (card {t. Suc i \<le> t \<and> t < n \<and> P t})"
    and "\<not> P i \<Longrightarrow> card {t. i \<le> t \<and> t < n \<and> P t} = card {t. Suc i \<le> t \<and> t < n \<and> P t}"
proof -
  have fin: "finite {t. Suc i \<le> t \<and> t < n \<and> P t}" by simp
  {
    assume "P i"
    then have "{t. i \<le> t \<and> t < n \<and> P t} = insert i {t. Suc i \<le> t \<and> t < n \<and> P t}"
      using assms by (auto simp: Suc_le_eq le_less)
    then show "card {t. i \<le> t \<and> t < n \<and> P t} = Suc (card {t. Suc i \<le> t \<and> t < n \<and> P t})"
      using fin by simp
  }
  {
    assume "\<not> P i"
    then have "{t. i \<le> t \<and> t < n \<and> P t} = {t. Suc i \<le> t \<and> t < n \<and> P t}"
      by (auto simp: Suc_le_eq le_less)
    then show "card {t. i \<le> t \<and> t < n \<and> P t} = card {t. Suc i \<le> t \<and> t < n \<and> P t}"
      by simp
  }
qed

lemma tileset_count_remove_bit:
  assumes "bit mp b" and "\<forall>j. bit mp' j \<longleftrightarrow> bit mp j \<and> j \<noteq> b"
  shows "tileset_count mp = Suc (tileset_count mp')"
proof -
  have "{j. bit mp' j} = {j. bit mp j} - {b}" using assms(2) by auto
  then have "card {j. bit mp' j} = card {j. bit mp j} - 1"
    using assms(1) finite_bits [of mp] by simp
  moreover have "card {j. bit mp j} > 0"
    using assms(1) finite_bits [of mp] by (auto simp: card_gt_0_iff)
  ultimately show ?thesis by (simp add: tileset_count_card)
qed

lemma unindex_step_member:
  assumes inv: "unindex_inv tset i (p, mp, cmap, pi, n_tiles)"
    and i: "i < TILE_COUNT" and mem: "bit tset i"
  shows "unindex_inv tset (Suc i) (unindex_step tset i (p, mp, cmap, pi, n_tiles))"
proof -
  from inv have len: "length (tiles p) = TILE_COUNT" "length (grid p) = TILE_COUNT"
    and mpb: "\<forall>g. bit mp g \<longrightarrow> g < TILE_COUNT" and cb: "\<forall>g. bit cmap g \<longrightarrow> g < TILE_COUNT"
    and disj: "\<forall>g. \<not> (bit mp g \<and> bit cmap g)"
    and placed: "\<forall>t < i. tiles p ! t < TILE_COUNT \<and> \<not> bit mp (tiles p ! t)
        \<and> \<not> bit cmap (tiles p ! t) \<and> grid p ! (tiles p ! t) = t"
    and nt: "unat n_tiles = tileset_count mp"
    and cm: "tileset_count mp = card {t. i \<le> t \<and> t < TILE_COUNT \<and> bit tset t}"
    and cc: "tileset_count cmap = card {t. i \<le> t \<and> t < TILE_COUNT \<and> \<not> bit tset t}"
    by (simp_all add: unindex_inv_def)
  define cmp where "cmp = unat (pi mod n_tiles)"
  define tile where "tile = rankselect mp cmp"
  define b where "b = bits_of mp ! cmp"
  define mp' where "mp' = tileset_difference mp tile"
  define p' where "p' = \<lparr>tiles = (tiles p)[i := b], grid = (grid p)[b := i]\<rparr>"
  from card_from_Suc(1) [OF i, of "bit tset", OF mem] cm
  have cm1: "tileset_count mp = Suc (card {t. Suc i \<le> t \<and> t < TILE_COUNT \<and> bit tset t})" by simp
  then have ntpos: "0 < unat n_tiles" using nt by simp
  then have ntnz: "n_tiles \<noteq> 0" by (auto simp: unat_eq_0)
  have "cmp = unat pi mod unat n_tiles" by (simp add: cmp_def unat_mod)
  with ntpos nt have cmplt: "cmp < tileset_count mp" by simp
  have tilebit: "bit tile j \<longleftrightarrow> j = b" for j
    unfolding tile_def b_def by (rule rankselect_bit [OF cmplt])
  have bmp: "bit mp b" unfolding b_def by (rule rankselect_member [OF cmplt])
  then have b25: "b < TILE_COUNT" using mpb by simp
  have bc: "\<not> bit cmap b" using bmp disj by blast
  have pos: "tileset_get_least tile = b" by (rule single_bit_get_least) (simp add: tilebit)
  have mp'bit: "bit mp' j \<longleftrightarrow> bit mp j \<and> j \<noteq> b" for j
    by (simp add: mp'_def bit_tileset_difference tilebit)
  have step: "unindex_step tset i (p, mp, cmap, pi, n_tiles)
      = (p', mp', cmap, pi div n_tiles, n_tiles - 1)"
    using mem by (simp add: unindex_step_def tileset_has_bit Let_def cmp_def [symmetric]
        tile_def [symmetric] pos mp'_def p'_def)
  have cnt: "tileset_count mp = Suc (tileset_count mp')"
    by (rule tileset_count_remove_bit [OF bmp]) (simp add: mp'bit)
  have nt': "unat (n_tiles - 1) = tileset_count mp'"
    using ntnz nt cnt by (simp add: unat_minus_one)
  have cm': "tileset_count mp' = card {t. Suc i \<le> t \<and> t < TILE_COUNT \<and> bit tset t}"
    using cnt cm1 by simp
  have cc': "tileset_count cmap = card {t. Suc i \<le> t \<and> t < TILE_COUNT \<and> \<not> bit tset t}"
    using card_from_Suc(2) [OF i, of "\<lambda>t. \<not> bit tset t"] mem cc by simp
  have placed': "tiles p' ! t < TILE_COUNT \<and> \<not> bit mp' (tiles p' ! t)
        \<and> \<not> bit cmap (tiles p' ! t) \<and> grid p' ! (tiles p' ! t) = t" if "t < Suc i" for t
  proof (cases "t = i")
    case True
    then show ?thesis using i len b25 bc by (simp add: p'_def mp'bit)
  next
    case False
    with that have ti: "t < i" by simp
    with placed have old: "tiles p ! t < TILE_COUNT" "\<not> bit mp (tiles p ! t)"
      "\<not> bit cmap (tiles p ! t)" "grid p ! (tiles p ! t) = t" by simp_all
    from old(2) bmp have "tiles p ! t \<noteq> b" by auto
    with old False show ?thesis by (simp add: p'_def mp'bit)
  qed
  show ?thesis
    unfolding step unindex_inv_def
    using len mpb cb disj placed' nt' cm' cc' by (simp add: p'_def mp'bit)
qed

lemma unindex_step_other:
  assumes inv: "unindex_inv tset i (p, mp, cmap, pi, n_tiles)"
    and i: "i < TILE_COUNT" and mem: "\<not> bit tset i"
  shows "unindex_inv tset (Suc i) (unindex_step tset i (p, mp, cmap, pi, n_tiles))"
proof -
  from inv have len: "length (tiles p) = TILE_COUNT" "length (grid p) = TILE_COUNT"
    and mpb: "\<forall>g. bit mp g \<longrightarrow> g < TILE_COUNT" and cb: "\<forall>g. bit cmap g \<longrightarrow> g < TILE_COUNT"
    and disj: "\<forall>g. \<not> (bit mp g \<and> bit cmap g)"
    and placed: "\<forall>t < i. tiles p ! t < TILE_COUNT \<and> \<not> bit mp (tiles p ! t)
        \<and> \<not> bit cmap (tiles p ! t) \<and> grid p ! (tiles p ! t) = t"
    and nt: "unat n_tiles = tileset_count mp"
    and cm: "tileset_count mp = card {t. i \<le> t \<and> t < TILE_COUNT \<and> bit tset t}"
    and cc: "tileset_count cmap = card {t. i \<le> t \<and> t < TILE_COUNT \<and> \<not> bit tset t}"
    by (simp_all add: unindex_inv_def)
  define b where "b = tileset_get_least cmap"
  define cmap' where "cmap' = tileset_remove_least cmap"
  define p' where "p' = \<lparr>tiles = (tiles p)[i := b], grid = (grid p)[b := i]\<rparr>"
  from card_from_Suc(1) [OF i, of "\<lambda>t. \<not> bit tset t", OF mem] cc
  have cc1: "tileset_count cmap = Suc (card {t. Suc i \<le> t \<and> t < TILE_COUNT \<and> \<not> bit tset t})"
    by simp
  then have "tileset_count cmap \<noteq> 0" by simp
  then have cnz: "cmap \<noteq> 0" by (auto simp: tileset_count_def popcount_def)
  have bcm: "bit cmap b" unfolding b_def by (rule tileset_get_least_bit [OF cnz])
  then have b25: "b < TILE_COUNT" using cb by simp
  have bmp: "\<not> bit mp b" using bcm disj by blast
  have cmap'bit: "bit cmap' j \<longleftrightarrow> bit cmap j \<and> j \<noteq> b" for j
    by (simp add: cmap'_def b_def bit_tileset_remove_least [OF cnz])
  have step: "unindex_step tset i (p, mp, cmap, pi, n_tiles) = (p', mp, cmap', pi, n_tiles)"
    using mem by (simp add: unindex_step_def tileset_has_bit Let_def b_def cmap'_def p'_def)
  have cnt: "tileset_count cmap = Suc (tileset_count cmap')"
    by (rule tileset_count_remove_bit [OF bcm]) (simp add: cmap'bit)
  have cc': "tileset_count cmap' = card {t. Suc i \<le> t \<and> t < TILE_COUNT \<and> \<not> bit tset t}"
    using cnt cc1 by simp
  have cm': "tileset_count mp = card {t. Suc i \<le> t \<and> t < TILE_COUNT \<and> bit tset t}"
    using card_from_Suc(2) [OF i, of "bit tset"] mem cm by simp
  have placed': "tiles p' ! t < TILE_COUNT \<and> \<not> bit mp (tiles p' ! t)
        \<and> \<not> bit cmap' (tiles p' ! t) \<and> grid p' ! (tiles p' ! t) = t" if "t < Suc i" for t
  proof (cases "t = i")
    case True
    then show ?thesis using i len b25 bmp by (simp add: p'_def cmap'bit)
  next
    case False
    with that have ti: "t < i" by simp
    with placed have old: "tiles p ! t < TILE_COUNT" "\<not> bit mp (tiles p ! t)"
      "\<not> bit cmap (tiles p ! t)" "grid p ! (tiles p ! t) = t" by simp_all
    from old(3) bcm have "tiles p ! t \<noteq> b" by auto
    with old False show ?thesis by (simp add: p'_def cmap'bit)
  qed
  show ?thesis
    unfolding step unindex_inv_def
    using len mpb cb disj placed' nt cm' cc' by (simp add: p'_def cmap'bit)
qed

lemma unindex_step_inv:
  assumes "unindex_inv tset i st" "i < TILE_COUNT"
  shows "unindex_inv tset (Suc i) (unindex_step tset i st)"
proof -
  obtain p mp cmap pi n_tiles where st: "st = (p, mp, cmap, pi, n_tiles)"
    by (cases st) auto
  show ?thesis
    using assms unindex_step_member [of tset i p mp cmap pi n_tiles]
      unindex_step_other [of tset i p mp cmap pi n_tiles]
    unfolding st by (cases "bit tset i") simp_all
qed

lemma unindex_loop_inv:
  "unindex_inv tset i st \<Longrightarrow> i \<le> TILE_COUNT \<Longrightarrow>
   unindex_inv tset TILE_COUNT (unindex_loop tset i st)"
proof (induction tset i st rule: unindex_loop.induct)
  case (1 tset i st)
  show ?case
  proof (cases "i < TILE_COUNT")
    case True
    from unindex_step_inv [OF "1.prems"(1) True]
    have "unindex_inv tset (i + 1) (unindex_step tset i st)" by simp
    from "1.IH" [OF True this] True
    show ?thesis by (simp add: unindex_loop.simps [of tset i st])
  next
    case False
    with "1.prems" have e: "i = TILE_COUNT" by simp
    from False have "unindex_loop tset i st = st" by (simp add: unindex_loop.simps [of tset i st])
    with "1.prems"(1) e show ?thesis by simp
  qed
qed


lemma tileset_count_le: "tileset_count tset \<le> 32"
proof -
  have "length (bits_of tset) \<le> length [0..<LENGTH(32)]"
    unfolding bits_of_def by (rule length_filter_le)
  then show ?thesis by (simp add: tileset_count_def popcount_bits_of)
qed

lemma tileset_count_complement:
  assumes "\<forall>g. bit mp g \<longrightarrow> g < TILE_COUNT"
  shows "tileset_count (tileset_complement mp) = TILE_COUNT - tileset_count mp"
proof -
  have "{g. bit (tileset_complement mp) g} = {..<TILE_COUNT} - {g. bit mp g}"
    by (auto simp: bit_tileset_complement)
  moreover have "{g. bit mp g} \<subseteq> {..<TILE_COUNT}" using assms by auto
  ultimately show ?thesis
    by (simp add: tileset_count_card card_Diff_subset finite_bits)
qed

lemma card_not_member:
  assumes "\<forall>t. bit tset t \<longrightarrow> t < TILE_COUNT"
  shows "card {t. t < TILE_COUNT \<and> \<not> bit tset t} = TILE_COUNT - tileset_count tset"
proof -
  have "{t. t < TILE_COUNT \<and> \<not> bit tset t} = {..<TILE_COUNT} - {t. bit tset t}" by auto
  moreover have "{t. bit tset t} \<subseteq> {..<TILE_COUNT}" using assms by auto
  ultimately show ?thesis
    by (simp add: tileset_count_card card_Diff_subset finite_bits)
qed

lemma unindex_inv_init:
  assumes tsb: "\<forall>t. bit tset t \<longrightarrow> t < TILE_COUNT"
    and mpb: "\<forall>g. bit mp g \<longrightarrow> g < TILE_COUNT"
    and cnt: "tileset_count mp = tileset_count tset"
  shows "unindex_inv tset 0
    (\<lparr>tiles = replicate TILE_COUNT 0, grid = replicate TILE_COUNT 0\<rparr>, mp, tileset_complement mp,
     pi, of_nat (tileset_count tset))"
proof -
  have "tileset_count tset < 2 ^ 32" using tileset_count_le [of tset] by simp
  then have u: "unat (of_nat (tileset_count tset) :: 32 word) = tileset_count mp"
    by (simp add: unat_of_nat cnt)
  have "{t. t < TILE_COUNT \<and> bit tset t} = {t. bit tset t}" using tsb by auto
  moreover have "tileset_count mp = card {t. bit tset t}"
    unfolding cnt by (rule tileset_count_card)
  ultimately have m: "tileset_count mp = card {t. t < TILE_COUNT \<and> bit tset t}"
    by simp
  have c: "tileset_count (tileset_complement mp) = card {t. t < TILE_COUNT \<and> \<not> bit tset t}"
    by (simp add: tileset_count_complement [OF mpb] card_not_member [OF tsb] cnt)
  show ?thesis
    unfolding unindex_inv_def using mpb u m c by (simp add: bit_tileset_complement)
qed

lemma unindex_inv_final:
  assumes "unindex_inv tset TILE_COUNT st"
  shows "puzzle_inverse (fst st)"
  using assms by (cases st) (simp add: unindex_inv_def puzzle_inverse_def)

lemma unindex_permutation_inverse:
  assumes "\<forall>t. bit tset t \<longrightarrow> t < TILE_COUNT"
    and "\<forall>g. bit mp g \<longrightarrow> g < TILE_COUNT"
    and "tileset_count mp = tileset_count tset"
  shows "puzzle_inverse (unindex_permutation
      \<lparr>tiles = replicate TILE_COUNT 0, grid = replicate TILE_COUNT 0\<rparr> tset mp pi)"
  unfolding unindex_permutation_def
  by (rule unindex_inv_final, rule unindex_loop_inv, rule unindex_inv_init [OF assms]) simp

subsection \<open>Inverse permutations satisfy the board invariants, and moves keep them\<close>

lemma puzzle_inverse_surj:
  assumes "puzzle_inverse p" "g < TILE_COUNT"
  shows "grid p ! g < TILE_COUNT \<and> tiles p ! (grid p ! g) = g"
proof -
  let ?f = "\<lambda>t. tiles p ! t"
  from assms(1) have inv: "\<forall>t < TILE_COUNT. ?f t < TILE_COUNT \<and> grid p ! ?f t = t"
    by (simp add: puzzle_inverse_def)
  have inj: "inj_on ?f {..<TILE_COUNT}"
  proof (rule inj_onI)
    fix x y assume "x \<in> {..<TILE_COUNT}" "y \<in> {..<TILE_COUNT}" "?f x = ?f y"
    with inv show "x = y" by (metis lessThan_iff)
  qed
  have sub: "?f ` {..<TILE_COUNT} \<subseteq> {..<TILE_COUNT}" using inv by auto
  have "?f ` {..<TILE_COUNT} = {..<TILE_COUNT}"
    by (rule endo_inj_surj [OF _ sub inj]) simp
  moreover have "g \<in> {..<TILE_COUNT}" using assms(2) by simp
  ultimately have "g \<in> ?f ` {..<TILE_COUNT}" by simp
  then obtain t where "t < TILE_COUNT" "?f t = g" by auto
  with inv show ?thesis by auto
qed

lemma puzzle_inverse_valid:
  assumes "puzzle_inverse p"
  shows "puzzle_valid p"
proof -
  from assms have len: "length (tiles p) = TILE_COUNT" "length (grid p) = TILE_COUNT"
    and inv: "\<forall>t < TILE_COUNT. tiles p ! t < TILE_COUNT \<and> grid p ! (tiles p ! t) = t"
    by (simp_all add: puzzle_inverse_def)
  have sur: "\<forall>g < TILE_COUNT. grid p ! g < TILE_COUNT \<and> tiles p ! (grid p ! g) = g"
    using puzzle_inverse_surj [OF assms] by simp
  have st: "set (tiles p) = {0..<TILE_COUNT}"
  proof
    show "set (tiles p) \<subseteq> {0..<TILE_COUNT}" using inv len by (auto simp: set_conv_nth)
    show "{0..<TILE_COUNT} \<subseteq> set (tiles p)"
    proof
      fix g assume "g \<in> {0..<TILE_COUNT}"
      then have "grid p ! g < TILE_COUNT" "tiles p ! (grid p ! g) = g" using sur by simp_all
      then show "g \<in> set (tiles p)" using len by (metis nth_mem)
    qed
  qed
  have sg: "set (grid p) = {0..<TILE_COUNT}"
  proof
    show "set (grid p) \<subseteq> {0..<TILE_COUNT}" using sur len by (auto simp: set_conv_nth)
    show "{0..<TILE_COUNT} \<subseteq> set (grid p)"
    proof
      fix t assume "t \<in> {0..<TILE_COUNT}"
      then have "tiles p ! t < TILE_COUNT" "grid p ! (tiles p ! t) = t" using inv by simp_all
      then show "t \<in> set (grid p)" using len by (metis nth_mem)
    qed
  qed
  have "card (set (grid p)) = length (grid p)" by (simp add: sg len)
  then have dist: "distinct (grid p)" by (rule card_distinct)
  have "{t. t = ZERO_TILE} \<inter> set (grid p) = {ZERO_TILE}"
    by (auto simp: sg ZERO_TILE_def TILE_COUNT_def)
  then have one: "length (filter (\<lambda>t. t = ZERO_TILE) (grid p)) = 1"
    by (simp add: distinct_length_filter [OF dist])
  show ?thesis
    unfolding puzzle_valid_def using len st sg inv sur one by simp
qed

lemma move_inverse:
  assumes "puzzle_inverse p" "dloc < TILE_COUNT"
  shows "puzzle_inverse (move p dloc)"
proof -
  from assms have len: "length (tiles p) = TILE_COUNT" "length (grid p) = TILE_COUNT"
    and inv: "\<forall>t < TILE_COUNT. tiles p ! t < TILE_COUNT \<and> grid p ! (tiles p ! t) = t"
    by (simp_all add: puzzle_inverse_def)
  have sur: "\<forall>g < TILE_COUNT. grid p ! g < TILE_COUNT \<and> tiles p ! (grid p ! g) = g"
    using puzzle_inverse_surj [OF assms(1)] by simp
  define dtile where "dtile = grid p ! dloc"
  define zloc where "zloc = tiles p ! ZERO_TILE"
  define tiles' where "tiles' = (tiles p)[dtile := zloc, ZERO_TILE := dloc]"
  define grid' where "grid' = (grid p)[dloc := ZERO_TILE, zloc := dtile]"
  have z0: "ZERO_TILE < TILE_COUNT" by (simp add: ZERO_TILE_def TILE_COUNT_def)
  have dt: "dtile < TILE_COUNT" "tiles p ! dtile = dloc" using sur assms(2) by (simp_all add: dtile_def)
  have zl: "zloc < TILE_COUNT" "grid p ! zloc = ZERO_TILE" using inv z0 by (simp_all add: zloc_def)
  have mv: "move p dloc = \<lparr>tiles = tiles', grid = grid'\<rparr>"
    by (simp add: move_def Let_def dtile_def zloc_def zero_location_def tiles'_def grid'_def)
  have "tiles' ! t < TILE_COUNT \<and> grid' ! (tiles' ! t) = t" if t: "t < TILE_COUNT" for t
  proof (cases "t = ZERO_TILE")
    case True
    have t0: "tiles' ! ZERO_TILE = dloc" using len z0 by (simp add: tiles'_def)
    have "grid' ! dloc = ZERO_TILE"
    proof (cases "dloc = zloc")
      case same: True
      then have "dtile = ZERO_TILE" using zl by (simp add: dtile_def)
      then show ?thesis using same len zl by (simp add: grid'_def)
    next
      case False
      then show ?thesis using len assms(2) by (simp add: grid'_def)
    qed
    with t0 True assms(2) show ?thesis by simp
  next
    case nz: False
    show ?thesis
    proof (cases "t = dtile")
      case True
      have "tiles' ! dtile = zloc" using nz True len dt by (simp add: tiles'_def)
      moreover have "grid' ! zloc = dtile" using len zl by (simp add: grid'_def)
      ultimately show ?thesis using True zl by simp
    next
      case False
      from inv t have old: "tiles p ! t < TILE_COUNT" "grid p ! (tiles p ! t) = t" by simp_all
      have n1: "tiles p ! t \<noteq> dloc" using old(2) False by (auto simp: dtile_def)
      have n2: "tiles p ! t \<noteq> zloc" using old(2) nz zl(2) by auto
      have "tiles' ! t = tiles p ! t" using nz False by (simp add: tiles'_def)
      moreover have "grid' ! (tiles p ! t) = grid p ! (tiles p ! t)"
        using n1 n2 by (simp add: grid'_def)
      ultimately show ?thesis using old by simp
    qed
  qed
  moreover have "length tiles' = TILE_COUNT" "length grid' = TILE_COUNT"
    using len by (simp_all add: tiles'_def grid'_def)
  ultimately show ?thesis by (simp add: puzzle_inverse_def mv)
qed

lemma move_zero_location:
  assumes "length (tiles p) = TILE_COUNT"
  shows "zero_location (move p dloc) = dloc"
  using assms by (simp add: move_def Let_def zero_location_def ZERO_TILE_def TILE_COUNT_def)

subsection \<open>The equivalence class tables\<close>

lemma flood_loop_subset:
  "bit (flood_loop n cmap r) i \<Longrightarrow> bit r i \<or> bit cmap i"
proof (induction n arbitrary: r)
  case 0
  then show ?case by simp
next
  case (Suc n)
  show ?case
  proof (cases "tileset_grow cmap r = r")
    case True
    with Suc.prems show ?thesis by (simp add: Let_def)
  next
    case False
    with Suc.prems have "bit (flood_loop n cmap (tileset_grow cmap r)) i" by (simp add: Let_def)
    from Suc.IH [OF this] show ?thesis by (auto simp: tileset_grow_def bit_and_iff)
  qed
qed

lemma tileset_flood_subset:
  assumes "bit cmap g" "bit (tileset_flood cmap g) i"
  shows "bit cmap i"
proof -
  from flood_loop_subset [OF assms(2) [unfolded tileset_flood_def]]
  have "bit (tileset_add EMPTY_TILESET g) i \<or> bit cmap i" .
  then show ?thesis using assms(1) by (auto simp: bit_tileset_add EMPTY_TILESET_def)
qed

lemma fold_update_length: "length (fold (\<lambda>g ec. ec[g := v]) gs ec) = length ec"
  by (induction gs arbitrary: ec) simp_all

lemma fold_update_other: "g \<notin> set gs \<Longrightarrow> fold (\<lambda>g ec. ec[g := v]) gs ec ! g = ec ! g"
  by (induction gs arbitrary: ec) simp_all

lemma fold_update_member:
  "g \<in> set gs \<Longrightarrow> g < length ec \<Longrightarrow> fold (\<lambda>g ec. ec[g := v]) gs ec ! g = v"
proof (induction gs arbitrary: ec)
  case Nil
  then show ?case by simp
next
  case (Cons a gs)
  show ?case
  proof (cases "g \<in> set gs")
    case True
    with Cons show ?thesis by simp
  next
    case False
    with Cons.prems have "a = g" by simp
    with False Cons.prems(2) show ?thesis by (simp add: fold_update_other)
  qed
qed

text \<open>What \<open>populate_loop\<close> returns: the array keeps its length, the counter does not
  decrease, every class numbered from now on has a position in \<open>cmap\<close>, and positions
  outside \<open>cmap\<close> keep their entries.\<close>

lemma populate_loop_props:
  assumes "\<forall>g. bit cmap g \<longrightarrow> g < length ec"
  shows "length (fst (populate_loop cmap ec n)) = length ec
    \<and> n \<le> snd (populate_loop cmap ec n)
    \<and> (\<forall>e. n \<le> e \<and> e < snd (populate_loop cmap ec n) \<longrightarrow>
          (\<exists>g. bit cmap g \<and> fst (populate_loop cmap ec n) ! g = int e))
    \<and> (\<forall>g. \<not> bit cmap g \<longrightarrow> fst (populate_loop cmap ec n) ! g = ec ! g)"
  using assms
proof (induction cmap ec n rule: populate_loop.induct)
  case (1 cmap ec n)
  show ?case
  proof (cases "tileset_empty cmap")
    case True
    then show ?thesis by (auto simp: populate_loop.simps [of cmap ec n])
  next
    case False
    then have nz: "cmap \<noteq> 0" by (simp add: tileset_empty_def)
    define s where "s = tileset_get_least cmap"
    define eq where "eq = tileset_flood cmap s"
    define ec' where "ec' = fold (\<lambda>g ec. ec[g := int n]) (bits_of eq) ec"
    define cmap' where "cmap' = tileset_difference cmap eq"
    have sb: "bit cmap s" unfolding s_def by (rule tileset_get_least_bit [OF nz])
    have seq: "bit eq s" unfolding eq_def by (rule bit_tileset_flood_seed [OF sb])
    have sub: "bit eq i \<Longrightarrow> bit cmap i" for i
      unfolding eq_def by (rule tileset_flood_subset [OF sb])
    have len': "length ec' = length ec" by (simp add: ec'_def fold_update_length)
    have bound': "\<forall>g. bit cmap' g \<longrightarrow> g < length ec'"
      using "1.prems" by (simp add: cmap'_def bit_tileset_difference len')
    have rec: "populate_loop cmap ec n = populate_loop cmap' ec' (n + 1)"
      using False
      by (simp add: populate_loop.simps [of cmap ec n] Let_def s_def eq_def ec'_def cmap'_def)
    from "1.IH" [OF False eq_def [unfolded s_def] bound' [unfolded cmap'_def ec'_def]]
    have ih: "length (fst (populate_loop cmap' ec' (n + 1))) = length ec'"
      "n + 1 \<le> snd (populate_loop cmap' ec' (n + 1))"
      "\<forall>e. n + 1 \<le> e \<and> e < snd (populate_loop cmap' ec' (n + 1)) \<longrightarrow>
          (\<exists>g. bit cmap' g \<and> fst (populate_loop cmap' ec' (n + 1)) ! g = int e)"
      "\<forall>g. \<not> bit cmap' g \<longrightarrow> fst (populate_loop cmap' ec' (n + 1)) ! g = ec' ! g"
      by (simp_all add: cmap'_def ec'_def)
    have a: "length (fst (populate_loop cmap ec n)) = length ec"
      using ih(1) len' by (simp add: rec)
    have b: "n \<le> snd (populate_loop cmap ec n)" using ih(2) by (simp add: rec)
    have c: "\<exists>g. bit cmap g \<and> fst (populate_loop cmap ec n) ! g = int e"
      if e: "n \<le> e \<and> e < snd (populate_loop cmap ec n)" for e
    proof (cases "e = n")
      case True
      have "\<not> bit cmap' s" using seq by (simp add: cmap'_def bit_tileset_difference)
      with ih(4) have "fst (populate_loop cmap' ec' (n + 1)) ! s = ec' ! s" by simp
      also have "\<dots> = int n"
        unfolding ec'_def using seq sb "1.prems"
        by (intro fold_update_member) (simp_all add: set_bits_of)
      finally show ?thesis using sb True by (auto simp: rec)
    next
      case False
      with e have "n + 1 \<le> e \<and> e < snd (populate_loop cmap' ec' (n + 1))" by (simp add: rec)
      with ih(3) obtain g where "bit cmap' g" "fst (populate_loop cmap' ec' (n + 1)) ! g = int e"
        by blast
      then show ?thesis by (auto simp: rec cmap'_def bit_tileset_difference)
    qed
    have d: "fst (populate_loop cmap ec n) ! g = ec ! g" if g: "\<not> bit cmap g" for g
    proof -
      from g have "\<not> bit cmap' g" by (simp add: cmap'_def bit_tileset_difference)
      with ih(4) have "fst (populate_loop cmap' ec' (n + 1)) ! g = ec' ! g" by simp
      also have "\<dots> = ec ! g"
        unfolding ec'_def using g sub by (intro fold_update_other) (auto simp: set_bits_of)
      finally show ?thesis by (simp add: rec)
    qed
    from a b c d show ?thesis by blast
  qed
qed

text \<open>An entry of the table is well formed: 25 mapping entries, and every class
  below \<open>n_eqclass\<close> has a grid position.\<close>

definition index_table_entry_ok :: "index_table \<Rightarrow> bool" where
  "index_table_entry_ok t \<longleftrightarrow>
     length (eqclasses t) = TILE_COUNT \<and>
     (\<forall>e < n_eqclass t. \<exists>g < TILE_COUNT. eqclasses t ! g = int e)"

lemma tileset_populate_eqclasses_ok:
  "length (fst (tileset_populate_eqclasses mp)) = TILE_COUNT"
  "e < snd (tileset_populate_eqclasses mp) \<Longrightarrow>
     \<exists>g < TILE_COUNT. fst (tileset_populate_eqclasses mp) ! g = int e"
proof -
  have bound: "\<forall>g. bit (tileset_complement mp) g \<longrightarrow> g < length (replicate TILE_COUNT (- 1 :: int))"
    by (simp add: bit_tileset_complement)
  note p = populate_loop_props [OF bound, of 0, folded tileset_populate_eqclasses_def]
  from p show "length (fst (tileset_populate_eqclasses mp)) = TILE_COUNT" by simp
  assume "e < snd (tileset_populate_eqclasses mp)"
  with p obtain g where "bit (tileset_complement mp) g"
    "fst (tileset_populate_eqclasses mp) ! g = int e" by auto
  then show "\<exists>g < TILE_COUNT. fst (tileset_populate_eqclasses mp) ! g = int e"
    by (auto simp: bit_tileset_complement)
qed

lemma index_table_loop_props:
  "length (index_table_loop n mp off) = n"
  "\<forall>t \<in> set (index_table_loop n mp off). index_table_entry_ok t"
proof -
  show "length (index_table_loop n mp off) = n"
    by (induction n arbitrary: mp off) (simp_all add: Let_def split: prod.splits)
  show "\<forall>t \<in> set (index_table_loop n mp off). index_table_entry_ok t"
  proof (induction n arbitrary: mp off)
    case 0
    then show ?case by simp
  next
    case (Suc n)
    obtain ec ne where p: "tileset_populate_eqclasses mp = (ec, ne)"
      by (cases "tileset_populate_eqclasses mp")
    from tileset_populate_eqclasses_ok [where mp = mp] p
    have "index_table_entry_ok \<lparr>eqclasses = ec, n_eqclass = ne, offset = off\<rparr>"
      by (simp add: index_table_entry_ok_def)
    with Suc show ?case by (simp add: p)
  qed
qed

text \<open>The global array \<open>index_tables\<close> holds only tables that \<open>make_index_table\<close> built.\<close>

definition index_tables_ok :: "index_tables \<Rightarrow> bool" where
  "index_tables_ok cache \<longleftrightarrow>
     (\<forall>k tbl. cache k = Some tbl \<longrightarrow>
        tbl = index_table_loop (combination_count k) (tileset_least k) 0)"

lemma make_index_table_zero:
  assumes "tileset_has tset ZERO_TILE" "index_tables_ok cache"
  shows "fst (make_index_table tset cache) =
      Some (index_table_loop (combination_count (tileset_count (tileset_remove tset ZERO_TILE)))
              (tileset_least (tileset_count (tileset_remove tset ZERO_TILE))) 0)"
    and "index_tables_ok (snd (make_index_table tset cache))"
  using assms
  by (auto simp: make_index_table_def Let_def index_tables_ok_def split: option.splits)

lemma make_index_aux_fields:
  "ts (fst (make_index_aux tset cache)) = tset"
  "n_tile (fst (make_index_aux tset cache)) = tileset_count (tileset_remove tset ZERO_TILE)"
  "n_maprank (fst (make_index_aux tset cache))
     = combination_count (tileset_count (tileset_remove tset ZERO_TILE))"
  "n_perm (fst (make_index_aux tset cache))
     = factorials ! tileset_count (tileset_remove tset ZERO_TILE)"
  "aux_tiles (fst (make_index_aux tset cache))
     = fill_tiles (tileset_remove tset ZERO_TILE) 0 (replicate 16 0)"
  "idxt (fst (make_index_aux tset cache)) = fst (make_index_table tset cache)"
  "snd (make_index_aux tset cache) = snd (make_index_table tset cache)"
  by (simp_all add: make_index_aux_def Let_def split: prod.splits)

subsection \<open>Ranking inverts unranking\<close>

lemma len32: "LENGTH(32) = 32"
  by simp

lemma bits_of_tileset_add_top:
  fixes w :: tileset
  assumes "\<forall>i. bit w i \<longrightarrow> i < n" and "n < 32"
  shows "bits_of (tileset_add w n) = bits_of w @ [n]"
proof -
  have d: "[0..<32] = [0..<n] @ [n..<32]"
    using upt_add_eq_append [of 0 n "32 - n"] assms(2) by simp
  have e: "[n..<32] = n # [Suc n..<32]"
    using assms(2) by (simp add: upt_conv_Cons)
  have a: "filter (bit (tileset_add w n)) [0..<n] = filter (bit w) [0..<n]"
    by (rule filter_cong) (auto simp: bit_tileset_add)
  have b: "filter (bit (tileset_add w n)) [Suc n..<32] = []"
    using assms(1) by (auto simp: filter_empty_conv bit_tileset_add)
  have c: "filter (bit w) [n..<32] = []"
    using assms(1) by (auto simp: filter_empty_conv)
  have n: "bit (tileset_add w n) n" using assms(2) by (simp add: bit_tileset_add)
  have "bits_of (tileset_add w n)
      = filter (bit (tileset_add w n)) [0..<n] @ filter (bit (tileset_add w n)) (n # [Suc n..<32])"
    unfolding bits_of_def by (simp only: len32 d e filter_append)
  also have "\<dots> = filter (bit w) [0..<n] @ [n]"
    by (simp add: a b n)
  finally have l: "bits_of (tileset_add w n) = filter (bit w) [0..<n] @ [n]" .
  have "bits_of w = filter (bit w) [0..<n] @ filter (bit w) [n..<32]"
    unfolding bits_of_def by (simp only: len32 d filter_append)
  then have "bits_of w = filter (bit w) [0..<n]" by (simp add: c)
  with l show ?thesis by simp
qed

lemma rank_list_append:
  "rank_list i (xs @ [c]) = rank_list i xs + (c choose (i + length xs))"
  by (induction xs arbitrary: i) simp_all

lemma rank_unrank_below:
  "n \<le> 32 \<Longrightarrow> r < (n choose k) \<Longrightarrow> rank_list 1 (bits_of (unrank_below n k r)) = r"
proof (induction n arbitrary: k r)
  case 0
  then have "k = 0" by (cases k) simp_all
  with 0 show ?case by (simp add: EMPTY_TILESET_def bits_of_Nil_iff [THEN iffD2])
next
  case (Suc n)
  show ?case
  proof (cases "k = 0")
    case True
    with Suc.prems show ?thesis by (simp add: EMPTY_TILESET_def bits_of_Nil_iff [THEN iffD2])
  next
    case False
    then obtain k' where k: "k = Suc k'" by (cases k) auto
    show ?thesis
    proof (cases "(n choose k) \<le> r")
      case True
      let ?inner = "unrank_below n k' (r - (n choose k))"
      from Suc.prems(2) True have lt: "r - (n choose k) < (n choose k')"
        by (simp add: k)
      from Suc.prems(1) have n32: "n \<le> 32" "n < 32" by simp_all
      from unrank_below_props [OF n32(1) lt]
      have b: "\<forall>i. bit ?inner i \<longrightarrow> i < n" and c: "tileset_count ?inner = k'" by simp_all
      from c have len: "length (bits_of ?inner) = k'"
        by (simp add: tileset_count_def popcount_bits_of)
      have "unrank_below (Suc n) k r = tileset_add ?inner n"
        using True False by (simp add: k)
      then have "rank_list 1 (bits_of (unrank_below (Suc n) k r))
          = rank_list 1 (bits_of ?inner) + (n choose (1 + k'))"
        by (simp add: bits_of_tileset_add_top [OF b n32(2)] rank_list_append len)
      also have "\<dots> = (r - (n choose k)) + (n choose k)"
        using Suc.IH [OF n32(1) lt] by (simp add: k)
      also have "\<dots> = r" using True by simp
      finally show ?thesis .
    next
      case False
      then have lt: "r < (n choose k)" by simp
      from Suc.prems(1) have n32: "n \<le> 32" by simp
      have "unrank_below (Suc n) k r = unrank_below n k r"
        using False \<open>k \<noteq> 0\<close> by simp
      with Suc.IH [OF n32 lt] show ?thesis by simp
    qed
  qed
qed

lemma tileset_rank_unrank:
  "r < combination_count k \<Longrightarrow> tileset_rank (tileset_unrank k r) = r"
  unfolding combination_count_def tileset_rank_def tileset_unrank_def
  by (rule rank_unrank_below) (simp_all add: TILE_COUNT_def)

lemma bit_tileset_least: "bit (tileset_least k) i \<longleftrightarrow> i < k \<and> i < 32"
proof -
  have "tileset_least k = mask k"
    by (simp add: tileset_least_def mask_eq_exp_minus_1)
  then show ?thesis by (auto simp: bit_mask_iff)
qed

lemma unrank_below_zero:
  "k \<le> n \<Longrightarrow> n \<le> 32 \<Longrightarrow> unrank_below n k 0 = tileset_least k"
proof (induction n arbitrary: k)
  case 0
  then show ?case by (simp add: EMPTY_TILESET_def tileset_least_def)
next
  case (Suc n)
  show ?case
  proof (cases "k = 0")
    case True
    then show ?thesis by (simp add: EMPTY_TILESET_def tileset_least_def)
  next
    case False
    show ?thesis
    proof (cases "k = Suc n")
      case True
      then have z: "(n choose k) = 0" by simp
      from Suc.prems have n32: "n < 32" by simp
      have "unrank_below (Suc n) k 0 = tileset_add (unrank_below n n 0) n"
        using True z by simp
      also have "unrank_below n n 0 = tileset_least n"
        using Suc.IH [of n] Suc.prems by simp
      also have "tileset_add (tileset_least n) n = tileset_least (Suc n)"
        by (rule bit_eqI) (use n32 in \<open>auto simp: bit_tileset_add bit_tileset_least\<close>)
      finally show ?thesis using True by simp
    next
      case ne: False
      with Suc.prems have kn: "k \<le> n" by simp
      then have "0 < (n choose k)" by (simp add: zero_less_binomial)
      then have "unrank_below (Suc n) k 0 = unrank_below n k 0"
        using False by simp
      with Suc.IH [OF kn] Suc.prems show ?thesis by simp
    qed
  qed
qed

lemma next_combination_unrank:
  assumes "Suc r < combination_count k"
  shows "next_combination (tileset_unrank k r) = tileset_unrank k (Suc r)"
proof -
  from assms have r: "r < combination_count k" by simp
  show ?thesis
    by (simp add: next_combination_def tileset_unrank_props(1) [OF r] tileset_rank_unrank [OF r])
qed

lemma funpow_next_combination:
  "r < combination_count k \<Longrightarrow> (next_combination ^^ r) (tileset_least k) = tileset_unrank k r"
proof (induction r)
  case 0
  then have "0 < (TILE_COUNT choose k)" by (simp add: combination_count_def)
  then have "k \<le> TILE_COUNT" by (metis binomial_eq_0 not_less less_numeral_extra(3))
  then show ?case
    by (simp add: tileset_unrank_def unrank_below_zero TILE_COUNT_def)
next
  case (Suc r)
  then have "(next_combination ^^ r) (tileset_least k) = tileset_unrank k r" by simp
  with next_combination_unrank [OF Suc.prems] show ?case by simp
qed

text \<open>The entry of the table for the map rank \<open>r\<close> describes the map of rank \<open>r\<close>.\<close>

lemma index_table_loop_nth:
  "i < n \<Longrightarrow> eqclasses (index_table_loop n mp off ! i)
       = fst (tileset_populate_eqclasses ((next_combination ^^ i) mp))
     \<and> n_eqclass (index_table_loop n mp off ! i)
       = snd (tileset_populate_eqclasses ((next_combination ^^ i) mp))"
proof (induction n arbitrary: i mp off)
  case 0
  then show ?case by simp
next
  case (Suc n)
  show ?case
  proof (cases i)
    case 0
    then show ?thesis by (simp add: Let_def split: prod.splits)
  next
    case (Suc j)
    with Suc.prems have "j < n" by simp
    from Suc.IH [OF this] show ?thesis
      by (simp add: Suc Let_def funpow_swap1 split: prod.splits)
  qed
qed

lemma index_table_entry:
  assumes "r < combination_count k"
  shows "eqclasses (index_table_loop (combination_count k) (tileset_least k) 0 ! r)
      = fst (tileset_populate_eqclasses (tileset_unrank k r))"
    and "n_eqclass (index_table_loop (combination_count k) (tileset_least k) 0 ! r)
      = snd (tileset_populate_eqclasses (tileset_unrank k r))"
  using index_table_loop_nth [OF assms, of "tileset_least k" 0]
  by (simp_all add: funpow_next_combination [OF assms])

subsection \<open>Valid tile sets and valid indices\<close>

text \<open>
  A tile set can be indexed when it has no member beyond the 25 tiles and at most
  \<open>INDEX_MAX_TILES\<close> non-zero tiles (the size of \<open>factorials\<close> and \<open>index_tables\<close>).  A valid
  index for \<open>aux\<close>: \<open>maprank < n_maprank\<close>, \<open>pidx < n_perm\<close> and, when the zero tile is in the
  tile set, \<open>0 \<le> eqidx < n_eqclass[maprank]\<close>.
\<close>

definition tileset_indexable :: "tileset \<Rightarrow> bool" where
  "tileset_indexable tset \<longleftrightarrow>
     tileset_difference tset FULL_TILESET = EMPTY_TILESET
     \<and> tileset_count (tileset_remove tset ZERO_TILE) \<le> INDEX_MAX_TILES"

definition index_valid :: "index_aux \<Rightarrow> index \<Rightarrow> bool" where
  "index_valid ax idx \<longleftrightarrow>
     maprank idx < n_maprank ax \<and> pidx idx < n_perm ax \<and>
     (if tileset_has (ts ax) ZERO_TILE
      then (case idxt ax of
              None \<Rightarrow> False
            | Some tbl \<Rightarrow> 0 \<le> eqidx idx \<and> eqidx idx < int (n_eqclass (tbl ! maprank idx)))
      else True)"

lemma tileset_indexable_bits:
  assumes "tileset_indexable tset"
  shows "bit tset t \<Longrightarrow> t < TILE_COUNT"
    and "bit (tileset_remove tset ZERO_TILE) t \<Longrightarrow> t < TILE_COUNT"
proof -
  from assms have "\<not> bit (tileset_difference tset FULL_TILESET) t"
    by (simp add: tileset_indexable_def EMPTY_TILESET_def)
  then show a: "bit tset t \<Longrightarrow> t < TILE_COUNT"
    by (simp add: bit_tileset_difference bit_FULL_TILESET)
  show "bit (tileset_remove tset ZERO_TILE) t \<Longrightarrow> t < TILE_COUNT"
    using a by (simp add: bit_tileset_remove)
qed

lemma bit_tileset_of: "bit (tileset_of gs) i \<longleftrightarrow> i \<in> set gs \<and> i < 32"
  by (induction gs) (auto simp: tileset_of_def bit_tileset_add EMPTY_TILESET_def)

lemma eqclass_from_index_valid:
  assumes tbl: "idxt ax = Some tbl" and mr: "maprank idx < length tbl"
    and ok: "index_table_entry_ok (tbl ! maprank idx)"
    and eq: "0 \<le> eqidx idx" "eqidx idx < int (n_eqclass (tbl ! maprank idx))"
  shows "\<exists>eq. eqclass_from_index ax idx = Inr eq \<and> eq \<noteq> 0
     \<and> (\<forall>g. bit eq g \<longleftrightarrow> g < TILE_COUNT \<and> eqclasses (tbl ! maprank idx) ! g = eqidx idx)"
proof -
  define eq where "eq = tileset_of (filter (\<lambda>g. eqclasses (tbl ! maprank idx) ! g = eqidx idx)
      [0..<TILE_COUNT])"
  have r: "eqclass_from_index ax idx = Inr eq"
    using tbl mr by (simp add: eqclass_from_index_def eq_def)
  have b: "bit eq g \<longleftrightarrow> g < TILE_COUNT \<and> eqclasses (tbl ! maprank idx) ! g = eqidx idx" for g
    by (auto simp: eq_def bit_tileset_of TILE_COUNT_def)
  from eq have "nat (eqidx idx) < n_eqclass (tbl ! maprank idx)" by simp
  with ok obtain g where "g < TILE_COUNT" "eqclasses (tbl ! maprank idx) ! g = int (nat (eqidx idx))"
    unfolding index_table_entry_ok_def by blast
  with eq(1) have "bit eq g" by (simp add: b)
  then have "eq \<noteq> 0" by auto
  with r b show ?thesis by blast
qed

text \<open>The positions of the map are in no class: their entries are \<open>-1\<close>.\<close>

lemma populate_map_entries:
  assumes "bit mp g" "g < TILE_COUNT"
  shows "fst (tileset_populate_eqclasses mp) ! g = - 1"
proof -
  have bound: "\<forall>g. bit (tileset_complement mp) g \<longrightarrow> g < length (replicate TILE_COUNT (- 1 :: int))"
    by (simp add: bit_tileset_complement)
  from assms(1) have "\<not> bit (tileset_complement mp) g" by (simp add: bit_tileset_complement)
  with populate_loop_props [OF bound, of 0, folded tileset_populate_eqclasses_def]
  have "fst (tileset_populate_eqclasses mp) ! g = replicate TILE_COUNT (- 1) ! g" by blast
  with assms(2) show ?thesis by simp
qed

text \<open>What \<open>invert_index\<close> does for an \<open>ax\<close> made by \<open>make_index_aux\<close> and a valid index.\<close>

lemma invert_index_unfold:
  assumes ix: "tileset_indexable tset" and ca: "index_tables_ok cache"
    and va: "index_valid (fst (make_index_aux tset cache)) idx"
  defines "ax \<equiv> fst (make_index_aux tset cache)"
  defines "tsnz \<equiv> tileset_remove tset ZERO_TILE"
  defines "p \<equiv> unindex_permutation \<lparr>tiles = replicate TILE_COUNT 0, grid = replicate TILE_COUNT 0\<rparr>
      tsnz (tileset_unrank (tileset_count tsnz) (maprank idx)) (pidx idx)"
  shows "puzzle_inverse p"
    and "\<not> tileset_has tset ZERO_TILE \<Longrightarrow> invert_index ax idx = Inr p"
    and "tileset_has tset ZERO_TILE \<Longrightarrow>
      \<exists>eq tbl. idxt ax = Some tbl \<and> eqclass_from_index ax idx = Inr eq \<and> eq \<noteq> 0
        \<and> (\<forall>g. bit eq g \<longleftrightarrow> g < TILE_COUNT \<and> eqclasses (tbl ! maprank idx) ! g = eqidx idx)
        \<and> invert_index ax idx = Inr (move p (tileset_get_least eq))
        \<and> eqclasses (tbl ! maprank idx)
            = fst (tileset_populate_eqclasses (tileset_unrank (tileset_count tsnz) (maprank idx)))"
proof -
  have f: "ts ax = tset" "n_maprank ax = combination_count (tileset_count tsnz)"
    by (simp_all add: ax_def tsnz_def make_index_aux_fields)
  from va have mr: "maprank idx < combination_count (tileset_count tsnz)"
    by (simp add: index_valid_def ax_def [symmetric] f)
  show pi: "puzzle_inverse p"
    unfolding p_def
  proof (rule unindex_permutation_inverse)
    show "\<forall>t. bit tsnz t \<longrightarrow> t < TILE_COUNT"
      using tileset_indexable_bits(2) [OF ix] by (simp add: tsnz_def)
    show "\<forall>g. bit (tileset_unrank (tileset_count tsnz) (maprank idx)) g \<longrightarrow> g < TILE_COUNT"
      using tileset_unrank_props(2) [OF mr] by simp
    show "tileset_count (tileset_unrank (tileset_count tsnz) (maprank idx)) = tileset_count tsnz"
      by (rule tileset_unrank_props(1) [OF mr])
  qed
  show "\<not> tileset_has tset ZERO_TILE \<Longrightarrow> invert_index ax idx = Inr p"
    by (simp add: invert_index_def Let_def f p_def tsnz_def)
  assume z: "tileset_has tset ZERO_TILE"
  define tbl where "tbl = index_table_loop (combination_count (tileset_count tsnz))
      (tileset_least (tileset_count tsnz)) 0"
  have t: "idxt ax = Some tbl"
    using make_index_table_zero(1) [OF z ca]
    by (simp add: ax_def make_index_aux_fields tbl_def tsnz_def)
  have len: "maprank idx < length tbl" using mr by (simp add: tbl_def index_table_loop_props(1))
  then have ok: "index_table_entry_ok (tbl ! maprank idx)"
    using index_table_loop_props(2) [of "combination_count (tileset_count tsnz)"
        "tileset_least (tileset_count tsnz)" 0]
    by (simp add: tbl_def)
  from va z have e: "0 \<le> eqidx idx" "eqidx idx < int (n_eqclass (tbl ! maprank idx))"
    by (simp_all add: index_valid_def ax_def [symmetric] f t)
  from eqclass_from_index_valid [OF t len ok e]
  obtain eq where q: "eqclass_from_index ax idx = Inr eq" "eq \<noteq> 0"
    "\<forall>g. bit eq g \<longleftrightarrow> g < TILE_COUNT \<and> eqclasses (tbl ! maprank idx) ! g = eqidx idx"
    by blast
  have i: "invert_index ax idx = Inr (move p (tileset_get_least eq))"
    using z by (simp add: invert_index_def Let_def f p_def tsnz_def canonical_zero_location_def q(1))
  have te: "eqclasses (tbl ! maprank idx)
      = fst (tileset_populate_eqclasses (tileset_unrank (tileset_count tsnz) (maprank idx)))"
    unfolding tbl_def by (rule index_table_entry(1) [OF mr])
  have "idxt ax = Some tbl \<and> eqclass_from_index ax idx = Inr eq \<and> eq \<noteq> 0
        \<and> (\<forall>g. bit eq g \<longleftrightarrow> g < TILE_COUNT \<and> eqclasses (tbl ! maprank idx) ! g = eqidx idx)
        \<and> invert_index ax idx = Inr (move p (tileset_get_least eq))
        \<and> eqclasses (tbl ! maprank idx)
            = fst (tileset_populate_eqclasses (tileset_unrank (tileset_count tsnz) (maprank idx)))"
    using t q i te by (intro conjI)
  then show "\<exists>eq tbl. idxt ax = Some tbl \<and> eqclass_from_index ax idx = Inr eq \<and> eq \<noteq> 0
        \<and> (\<forall>g. bit eq g \<longleftrightarrow> g < TILE_COUNT \<and> eqclasses (tbl ! maprank idx) ! g = eqidx idx)
        \<and> invert_index ax idx = Inr (move p (tileset_get_least eq))
        \<and> eqclasses (tbl ! maprank idx)
            = fst (tileset_populate_eqclasses (tileset_unrank (tileset_count tsnz) (maprank idx)))"
    by (intro exI)
qed

subsection \<open>The index of the tile set \<open>{0, 1}\<close>, evaluated\<close>

lemma upt_0_25:
  "[0..<25] = [0,1,2,3,4,5,6,7,8,9,10,11,12,13,14,15,16,17,18,19,20,21,22,23,24::nat]"
  by (simp add: upt_rec)

lemma upt_0_32:
  "[0..<32] = [0,1,2,3,4,5,6,7,8,9,10,11,12,13,14,15,16,17,18,19,20,21,22,23,24,25,26,27,28,
     29,30,31::nat]"
  by (simp add: upt_rec)

lemma flood_loop_numeral:
  "flood_loop (numeral k) cmap r =
     (let r' = tileset_grow cmap r in if r' = r then r else flood_loop (pred_numeral k) cmap r')"
  by (simp add: numeral_eq_Suc)

lemma populate_1:
  "tileset_populate_eqclasses 1
     = ([- 1, 0, 0, 0, 0, 0, 0, 0, 0, 0, 0, 0, 0, 0, 0, 0, 0, 0, 0, 0, 0, 0, 0, 0, 0], 1)"
proof -
  have c: "tileset_complement 1 = 0x1FFFFFE"
    by (simp add: tileset_complement_def FULL_TILESET_def TILE_COUNT_def tileset_difference_def)
  have l: "tileset_get_least 0x1FFFFFE = 1" by code_simp
  have "tileset_flood 0x1FFFFFE 1 = 0x1FFFFFE"
    by (simp add: tileset_flood_def TILE_COUNT_def flood_loop_numeral tileset_grow_def
        tileset_add_def EMPTY_TILESET_def Let_def)
  then have f: "tileset_flood 0x1FFFFFE (Suc 0) = 0x1FFFFFE" by simp
  have b: "bits_of (0x1FFFFFE :: 32 word)
      = [1,2,3,4,5,6,7,8,9,10,11,12,13,14,15,16,17,18,19,20,21,22,23,24]"
    by (simp add: bits_of_def upt_0_32)
  have e: "tileset_empty (0 :: 32 word)" "\<not> tileset_empty (0x1FFFFFE :: 32 word)"
    by (simp_all add: tileset_empty_def)
  have d: "tileset_difference 0x1FFFFFE 0x1FFFFFE = 0" by (simp add: tileset_difference_def)
  show ?thesis
    unfolding tileset_populate_eqclasses_def c
    by (simp add: populate_loop.simps [of "0x1FFFFFE"] populate_loop.simps [of 0] l f b e d
        TILE_COUNT_def Let_def numeral_eq_Suc)
qed

lemma populate_2:
  "tileset_populate_eqclasses 2
     = ([0, - 1, 0, 0, 0, 0, 0, 0, 0, 0, 0, 0, 0, 0, 0, 0, 0, 0, 0, 0, 0, 0, 0, 0, 0], 1)"
proof -
  have c: "tileset_complement 2 = 0x1FFFFFD"
    by (simp add: tileset_complement_def FULL_TILESET_def TILE_COUNT_def tileset_difference_def)
  have l: "tileset_get_least 0x1FFFFFD = 0" by code_simp
  have f: "tileset_flood 0x1FFFFFD 0 = 0x1FFFFFD"
    by (simp add: tileset_flood_def TILE_COUNT_def flood_loop_numeral tileset_grow_def
        tileset_add_def EMPTY_TILESET_def Let_def)
  have b: "bits_of (0x1FFFFFD :: 32 word)
      = [0,2,3,4,5,6,7,8,9,10,11,12,13,14,15,16,17,18,19,20,21,22,23,24]"
    by (simp add: bits_of_def upt_0_32)
  have e: "tileset_empty (0 :: 32 word)" "\<not> tileset_empty (0x1FFFFFD :: 32 word)"
    by (simp_all add: tileset_empty_def)
  have d: "tileset_difference 0x1FFFFFD 0x1FFFFFD = 0" by (simp add: tileset_difference_def)
  show ?thesis
    unfolding tileset_populate_eqclasses_def c
    by (simp add: populate_loop.simps [of "0x1FFFFFD"] populate_loop.simps [of 0] l f b e d
        TILE_COUNT_def Let_def numeral_eq_Suc)
qed

definition ax01 :: index_aux where
  "ax01 = fst (make_index_aux 3 (\<lambda>k. None))"

lemma count_2: "tileset_count 2 = 1" by code_simp

lemma ax01_fields:
  "ts ax01 = 3" "n_maprank ax01 = 25" "n_perm ax01 = 1"
  "idxt ax01 = Some (index_table_loop 25 1 0)"
proof -
  have r: "tileset_remove 3 ZERO_TILE = 2" by (simp add: tileset_remove_def ZERO_TILE_def)
  have h: "tileset_has 3 ZERO_TILE" by (simp add: tileset_has_def ZERO_TILE_def)
  have o: "index_tables_ok (\<lambda>k. None)" by (simp add: index_tables_ok_def)
  show "ts ax01 = 3" by (simp add: ax01_def make_index_aux_fields)
  show "n_maprank ax01 = 25"
    by (simp add: ax01_def make_index_aux_fields r count_2 combination_count_def TILE_COUNT_def)
  show "n_perm ax01 = 1"
    by (simp add: ax01_def make_index_aux_fields r count_2 factorials_def)
  show "idxt ax01 = Some (index_table_loop 25 1 0)"
    using make_index_table_zero(1) [OF h o]
    by (simp add: ax01_def make_index_aux_fields r count_2 combination_count_def TILE_COUNT_def
        tileset_least_def)
qed

lemma table_entries:
  "eqclasses (index_table_loop 25 1 0 ! 0)
     = [- 1, 0, 0, 0, 0, 0, 0, 0, 0, 0, 0, 0, 0, 0, 0, 0, 0, 0, 0, 0, 0, 0, 0, 0, 0]"
  "n_eqclass (index_table_loop 25 1 0 ! 0) = 1"
  "eqclasses (index_table_loop 25 1 0 ! 1)
     = [0, - 1, 0, 0, 0, 0, 0, 0, 0, 0, 0, 0, 0, 0, 0, 0, 0, 0, 0, 0, 0, 0, 0, 0, 0]"
  "n_eqclass (index_table_loop 25 1 0 ! 1) = 1"
proof -
  have n: "next_combination 1 = 2" by code_simp
  from index_table_loop_nth [of 0 25 1 0]
  show "eqclasses (index_table_loop 25 1 0 ! 0)
     = [- 1, 0, 0, 0, 0, 0, 0, 0, 0, 0, 0, 0, 0, 0, 0, 0, 0, 0, 0, 0, 0, 0, 0, 0, 0]"
    and "n_eqclass (index_table_loop 25 1 0 ! 0) = 1"
    by (simp_all add: populate_1)
  from index_table_loop_nth [of 1 25 1 0]
  show "eqclasses (index_table_loop 25 1 0 ! 1)
     = [0, - 1, 0, 0, 0, 0, 0, 0, 0, 0, 0, 0, 0, 0, 0, 0, 0, 0, 0, 0, 0, 0, 0, 0, 0]"
    and "n_eqclass (index_table_loop 25 1 0 ! 1) = 1"
    by (simp_all add: n populate_2)
qed

lemma unindex_2_2: "unindex_permutation \<lparr>tiles = replicate TILE_COUNT 0, grid = replicate TILE_COUNT 0\<rparr> 2 2 0 = solved_puzzle"
  by code_simp


lemma eqclass_ax01:
  "eqclass_from_index ax01 \<lparr>pidx = 0, maprank = 1, eqidx = 0\<rparr> = Inr 0x1FFFFFD"
proof -
  have len: "length (index_table_loop 25 1 0) = 25" by (rule index_table_loop_props(1))
  have q: "tileset_of (filter (\<lambda>g. [0, - 1, 0, 0, 0, 0, 0, 0, 0, 0, 0, 0, 0, 0, 0, 0, 0, 0, 0, 0, 0,
      0, 0, 0, 0 :: int] ! g = 0) [0..<25]) = 0x1FFFFFD"
    by (simp add: upt_0_25 tileset_of_def tileset_add_def EMPTY_TILESET_def)
  show ?thesis
    by (simp add: eqclass_from_index_def ax01_fields len table_entries [unfolded One_nat_def]
        TILE_COUNT_def q)
qed

lemma invert_index_ax01:
  "invert_index ax01 \<lparr>pidx = 0, maprank = 1, eqidx = 0\<rparr> = Inr solved_puzzle"
proof -
  have r: "tileset_remove 3 ZERO_TILE = 2" by (simp add: tileset_remove_def ZERO_TILE_def)
  have h: "tileset_has 3 ZERO_TILE" by (simp add: tileset_has_def ZERO_TILE_def)
  have u: "tileset_unrank 1 1 = 2" by code_simp
  have len: "length (index_table_loop 25 1 0) = 25" by (rule index_table_loop_props(1))
  have q: "tileset_of (filter (\<lambda>g. [0, - 1, 0, 0, 0, 0, 0, 0, 0, 0, 0, 0, 0, 0, 0, 0, 0, 0, 0, 0, 0,
      0, 0, 0, 0 :: int] ! g = 0) [0..<25]) = 0x1FFFFFD"
    by (simp add: upt_0_25 tileset_of_def tileset_add_def EMPTY_TILESET_def)
  have l: "tileset_get_least 0x1FFFFFD = 0" by code_simp
  have c: "canonical_zero_location ax01 \<lparr>pidx = 0, maprank = 1, eqidx = 0\<rparr> = Inr 0"
    by (simp add: canonical_zero_location_def eqclass_ax01 [unfolded One_nat_def] l)
  have m: "move solved_puzzle 0 = solved_puzzle" by code_simp
  show ?thesis
    by (simp add: invert_index_def Let_def ax01_fields r h count_2 u [unfolded One_nat_def]
        unindex_2_2 c [unfolded One_nat_def] m)
qed

lemma compute_index_portable_ax01:
  "compute_index Portable ax01 solved_puzzle = Inr \<lparr>pidx = 1, maprank = 0, eqidx = - 1\<rparr>"
proof -
  have r: "tileset_remove 3 ZERO_TILE = 2" by (simp add: tileset_remove_def ZERO_TILE_def)
  have h: "tileset_has 3 ZERO_TILE" by (simp add: tileset_has_def ZERO_TILE_def)
  have t: "tile_map_loop solved_puzzle 3 EMPTY_TILESET = 3" by code_simp
  have k: "tileset_rank 3 = 0" by code_simp
  have i: "index_permutation 2 3 solved_puzzle = 1" by code_simp
  have z: "zero_location solved_puzzle = 0" by code_simp
  have len: "length (index_table_loop 25 1 0) = 25" by (rule index_table_loop_props(1))
  show ?thesis
    by (simp add: compute_index_def Let_def tile_map_def ax01_fields r h t k i z len table_entries)
qed

lemma compute_index_vectorised_ax01:
  "compute_index Vectorised ax01 solved_puzzle = Inr \<lparr>pidx = 0, maprank = 1, eqidx = 0\<rparr>"
proof -
  have r: "tileset_remove 3 ZERO_TILE = 2" by (simp add: tileset_remove_def ZERO_TILE_def)
  have h: "tileset_has 3 ZERO_TILE" by (simp add: tileset_has_def ZERO_TILE_def)
  have f: "fill_tiles 2 0 (replicate 16 0) = [254, 0, 0, 0, 0, 0, 0, 0, 0, 0, 0, 0, 0, 0, 0, 0]"
    by code_simp
  have t: "tile_map_vectorised [254, 0, 0, 0, 0, 0, 0, 0, 0, 0, 0, 0, 0, 0, 0, 0] solved_puzzle = 2"
    by code_simp
  have k: "tileset_rank 2 = 1" by code_simp
  have i: "index_permutation 2 2 solved_puzzle = 0" by code_simp
  have z: "zero_location solved_puzzle = 0" by code_simp
  have len: "length (index_table_loop 25 1 0) = 25" by (rule index_table_loop_props(1))
  have a: "aux_tiles ax01 = [254, 0, 0, 0, 0, 0, 0, 0, 0, 0, 0, 0, 0, 0, 0, 0]"
    by (simp add: ax01_def make_index_aux_fields r f)
  show ?thesis
    by (simp add: compute_index_def Let_def tile_map_def ax01_fields a r h t k i z len
        table_entries [unfolded One_nat_def])
qed

lemma index_valid_ax01: "index_valid ax01 \<lparr>pidx = 0, maprank = 1, eqidx = 0\<rparr>"
  by (simp add: index_valid_def ax01_fields table_entries [unfolded One_nat_def] tileset_has_def
      ZERO_TILE_def)

lemma tileset_indexable_3: "tileset_indexable 3"
proof -
  have r: "tileset_remove 3 ZERO_TILE = 2" by (simp add: tileset_remove_def ZERO_TILE_def)
  show ?thesis
    by (simp add: tileset_indexable_def r count_2 INDEX_MAX_TILES_def tileset_difference_def
        FULL_TILESET_def TILE_COUNT_def EMPTY_TILESET_def)
qed

subsection \<open>The index of the tile set \<open>{0, 1, 2}\<close> with the tiles 1 and 2 around a corner\<close>

definition ax012 :: index_aux where
  "ax012 = fst (make_index_aux 7 (\<lambda>k. None))"

lemma binomial_numeral_Suc:
  "(numeral n choose Suc k) = (pred_numeral n choose k) + (pred_numeral n choose Suc k)"
  by (simp add: numeral_eq_Suc)

lemma unrank_below_numeral:
  "unrank_below (numeral n) k r =
     (if k = 0 then EMPTY_TILESET
      else if (pred_numeral n choose k) \<le> r
      then tileset_add (unrank_below (pred_numeral n) (k - 1) (r - (pred_numeral n choose k)))
             (pred_numeral n)
      else unrank_below (pred_numeral n) k r)"
  by (simp add: numeral_eq_Suc)

lemma unrank_2_11: "tileset_unrank 2 11 = 34"
  by (simp add: tileset_unrank_def TILE_COUNT_def unrank_below_numeral binomial_numeral_Suc
      numeral_2_eq_2 tileset_add_def EMPTY_TILESET_def)

lemma count_6: "tileset_count 6 = 2" by code_simp

lemma combination_count_2: "combination_count 2 = 300"
  by (simp add: combination_count_def TILE_COUNT_def choose_two)

lemma populate_34:
  "tileset_populate_eqclasses 34
     = ([0, - 1, 1, 1, 1, - 1, 1, 1, 1, 1, 1, 1, 1, 1, 1, 1, 1, 1, 1, 1, 1, 1, 1, 1, 1], 2)"
proof -
  have c: "tileset_complement 34 = 0x1FFFFDD"
    by (simp add: tileset_complement_def FULL_TILESET_def TILE_COUNT_def tileset_difference_def)
  have l: "tileset_get_least 0x1FFFFDD = 0" "tileset_get_least 0x1FFFFDC = 2" by code_simp+
  have f: "tileset_flood 0x1FFFFDD 0 = 1"
    by (simp add: tileset_flood_def TILE_COUNT_def flood_loop_numeral tileset_grow_def
        tileset_add_def EMPTY_TILESET_def Let_def)
  have "tileset_flood 0x1FFFFDC 2 = 0x1FFFFDC"
    by (simp add: tileset_flood_def TILE_COUNT_def flood_loop_numeral tileset_grow_def
        tileset_add_def EMPTY_TILESET_def Let_def)
  then have f': "tileset_flood 0x1FFFFDC (Suc (Suc 0)) = 0x1FFFFDC" by (simp add: numeral_2_eq_2)
  have b: "bits_of (1 :: 32 word) = [0]"
    "bits_of (0x1FFFFDC :: 32 word)
      = [2,3,4,6,7,8,9,10,11,12,13,14,15,16,17,18,19,20,21,22,23,24]"
    by (simp_all add: bits_of_def upt_0_32)
  have e: "tileset_empty (0 :: 32 word)" "\<not> tileset_empty (0x1FFFFDD :: 32 word)"
    "\<not> tileset_empty (0x1FFFFDC :: 32 word)"
    by (simp_all add: tileset_empty_def)
  have d: "tileset_difference 0x1FFFFDD 1 = 0x1FFFFDC" "tileset_difference 0x1FFFFDC 0x1FFFFDC = 0"
    by (simp_all add: tileset_difference_def)
  show ?thesis
    unfolding tileset_populate_eqclasses_def c
    by (simp add: populate_loop.simps [of "0x1FFFFDD"] populate_loop.simps [of "0x1FFFFDC"]
        populate_loop.simps [of 0] l f f' b e d TILE_COUNT_def Let_def numeral_eq_Suc)
qed


lemma ax012_fields:
  "ts ax012 = 7" "n_maprank ax012 = 300" "n_perm ax012 = 2"
  "idxt ax012 = Some (index_table_loop 300 3 0)"
proof -
  have r: "tileset_remove 7 ZERO_TILE = 6" by (simp add: tileset_remove_def ZERO_TILE_def)
  have h: "tileset_has 7 ZERO_TILE" by (simp add: tileset_has_def ZERO_TILE_def)
  have o: "index_tables_ok (\<lambda>k. None)" by (simp add: index_tables_ok_def)
  show "ts ax012 = 7" by (simp add: ax012_def make_index_aux_fields)
  show "n_maprank ax012 = 300"
    by (simp add: ax012_def make_index_aux_fields r count_6 combination_count_2)
  show "n_perm ax012 = 2"
    by (simp add: ax012_def make_index_aux_fields r count_6 factorials_def)
  show "idxt ax012 = Some (index_table_loop 300 3 0)"
    using make_index_table_zero(1) [OF h o]
    by (simp add: ax012_def make_index_aux_fields r count_6 combination_count_2 tileset_least_def)
qed

lemma table_entry_11:
  "eqclasses (index_table_loop 300 3 0 ! 11)
     = [0, - 1, 1, 1, 1, - 1, 1, 1, 1, 1, 1, 1, 1, 1, 1, 1, 1, 1, 1, 1, 1, 1, 1, 1, 1]"
  "n_eqclass (index_table_loop 300 3 0 ! 11) = 2"
proof -
  have l: "tileset_least 2 = 3" by (simp add: tileset_least_def)
  have lt: "11 < combination_count 2" by (simp add: combination_count_2)
  from index_table_entry [OF lt]
  show "eqclasses (index_table_loop 300 3 0 ! 11)
     = [0, - 1, 1, 1, 1, - 1, 1, 1, 1, 1, 1, 1, 1, 1, 1, 1, 1, 1, 1, 1, 1, 1, 1, 1, 1]"
    and "n_eqclass (index_table_loop 300 3 0 ! 11) = 2"
    by (simp_all add: combination_count_2 l unrank_2_11 populate_34)
qed

lemma eqclass_ax012:
  "eqclass_from_index ax012 \<lparr>pidx = 0, maprank = 11, eqidx = 1\<rparr> = Inr 0x1FFFFDC"
proof -
  have len: "length (index_table_loop 300 3 0) = 300" by (rule index_table_loop_props(1))
  have q: "tileset_of (filter (\<lambda>g. [0, - 1, 1, 1, 1, - 1, 1, 1, 1, 1, 1, 1, 1, 1, 1, 1, 1, 1, 1, 1, 1,
      1, 1, 1, 1 :: int] ! g = 1) [0..<25]) = 0x1FFFFDC"
    by (simp add: upt_0_25 tileset_of_def tileset_add_def EMPTY_TILESET_def)
  show ?thesis
    by (simp add: eqclass_from_index_def ax012_fields len table_entry_11 TILE_COUNT_def q)
qed

lemma invert_index_ax012:
  "invert_index ax012 \<lparr>pidx = 0, maprank = 11, eqidx = 1\<rparr>
     = Inr \<lparr>tiles = [2,1,5,0,3,4,6,7,8,9,10,11,12,13,14,15,16,17,18,19,20,21,22,23,24],
            grid = [3,1,0,4,5,2,6,7,8,9,10,11,12,13,14,15,16,17,18,19,20,21,22,23,24]\<rparr>"
proof -
  have r: "tileset_remove 7 ZERO_TILE = 6" by (simp add: tileset_remove_def ZERO_TILE_def)
  have h: "tileset_has 7 ZERO_TILE" by (simp add: tileset_has_def ZERO_TILE_def)
  have u: "unindex_permutation \<lparr>tiles = replicate TILE_COUNT 0, grid = replicate TILE_COUNT 0\<rparr>
      6 34 0
    = \<lparr>tiles = [0,1,5,2,3,4,6,7,8,9,10,11,12,13,14,15,16,17,18,19,20,21,22,23,24],
       grid = [0,1,3,4,5,2,6,7,8,9,10,11,12,13,14,15,16,17,18,19,20,21,22,23,24]\<rparr>"
    by code_simp
  have l: "tileset_get_least 0x1FFFFDC = 2" by code_simp
  have c: "canonical_zero_location ax012 \<lparr>pidx = 0, maprank = 11, eqidx = 1\<rparr> = Inr 2"
    by (simp add: canonical_zero_location_def eqclass_ax012 l)
  have m: "move \<lparr>tiles = [0,1,5,2,3,4,6,7,8,9,10,11,12,13,14,15,16,17,18,19,20,21,22,23,24],
       grid = [0,1,3,4,5,2,6,7,8,9,10,11,12,13,14,15,16,17,18,19,20,21,22,23,24]\<rparr> 2
     = \<lparr>tiles = [2,1,5,0,3,4,6,7,8,9,10,11,12,13,14,15,16,17,18,19,20,21,22,23,24],
        grid = [3,1,0,4,5,2,6,7,8,9,10,11,12,13,14,15,16,17,18,19,20,21,22,23,24]\<rparr>"
    by code_simp
  have "invert_index ax012 \<lparr>pidx = 0, maprank = 11, eqidx = 1\<rparr>
      = Inr (move (unindex_permutation
          \<lparr>tiles = replicate TILE_COUNT 0, grid = replicate TILE_COUNT 0\<rparr> 6 34 0) 2)"
    by (simp add: invert_index_def Let_def ax012_fields r h count_6 unrank_2_11 c)
  then show ?thesis by (simp only: u m)
qed

lemma index_valid_ax012: "index_valid ax012 \<lparr>pidx = 0, maprank = 11, eqidx = 1\<rparr>"
  by (simp add: index_valid_def ax012_fields table_entry_11 tileset_has_def ZERO_TILE_def)

lemma tileset_indexable_7: "tileset_indexable 7"
proof -
  have r: "tileset_remove 7 ZERO_TILE = 6" by (simp add: tileset_remove_def ZERO_TILE_def)
  show ?thesis
    by (simp add: tileset_indexable_def r count_6 INDEX_MAX_TILES_def tileset_difference_def
        FULL_TILESET_def TILE_COUNT_def EMPTY_TILESET_def)
qed

subsection \<open>The puzzle made by \<open>invert_index\<close>\<close>

text \<open>
  Claim C6.  For a tile set \<open>tset\<close> that can be indexed, the \<open>aux\<close> made for it by
  \<open>make_index_aux\<close> and a valid index \<open>idx\<close>, \<open>invert_index\<close> returns a puzzle, and that
  puzzle satisfies the board invariants: \<open>tiles\<close> and \<open>grid\<close> are permutations of
  \<open>0, \<dots>, 24\<close>, mutual inverses, and exactly one grid entry is the zero tile.
\<close>

theorem invert_index_board_invariants:
  assumes "tileset_indexable tset" and "index_tables_ok cache"
    and "index_valid (fst (make_index_aux tset cache)) idx"
  shows "\<exists>p. invert_index (fst (make_index_aux tset cache)) idx = Inr p \<and> puzzle_valid p"
proof -
  define p0 where "p0 = unindex_permutation
      \<lparr>tiles = replicate TILE_COUNT 0, grid = replicate TILE_COUNT 0\<rparr>
      (tileset_remove tset ZERO_TILE)
      (tileset_unrank (tileset_count (tileset_remove tset ZERO_TILE)) (maprank idx)) (pidx idx)"
  note u = invert_index_unfold [OF assms, folded p0_def]
  show ?thesis
  proof (cases "tileset_has tset ZERO_TILE")
    case False
    have "invert_index (fst (make_index_aux tset cache)) idx = Inr p0 \<and> puzzle_valid p0"
      using u(2) [OF False] puzzle_inverse_valid [OF u(1)] by (rule conjI)
    then show ?thesis by (rule exI)
  next
    case True
    from u(3) [OF True] show ?thesis
    proof (elim exE conjE)
      fix eq tbl
      assume eq: "eq \<noteq> 0"
        and b: "\<forall>g. bit eq g \<longleftrightarrow> g < TILE_COUNT \<and> eqclasses (tbl ! maprank idx) ! g = eqidx idx"
        and r: "invert_index (fst (make_index_aux tset cache)) idx
          = Inr (move p0 (tileset_get_least eq))"
      from tileset_get_least_bit [OF eq] have "bit eq (tileset_get_least eq)" .
      with b have lt: "tileset_get_least eq < TILE_COUNT" by (simp only:)
      have "invert_index (fst (make_index_aux tset cache)) idx
          = Inr (move p0 (tileset_get_least eq)) \<and> puzzle_valid (move p0 (tileset_get_least eq))"
        using r puzzle_inverse_valid [OF move_inverse [OF u(1) lt]] by (rule conjI)
      then show ?thesis by (rule exI)
    qed
  qed
qed

theorem invert_index_board_invariants_witness:
  "tileset_indexable 3 \<and> index_tables_ok (\<lambda>k. None)
   \<and> index_valid (fst (make_index_aux 3 (\<lambda>k. None))) \<lparr>pidx = 0, maprank = 1, eqidx = 0\<rparr>
   \<and> invert_index (fst (make_index_aux 3 (\<lambda>k. None))) \<lparr>pidx = 0, maprank = 1, eqidx = 0\<rparr>
       = Inr solved_puzzle
   \<and> puzzle_valid solved_puzzle"
proof -
  have o: "index_tables_ok (\<lambda>k. None)" by (simp add: index_tables_ok_def)
  note v = index_valid_ax01 [unfolded ax01_def]
  from invert_index_board_invariants [OF tileset_indexable_3 o v]
  obtain p where p: "invert_index (fst (make_index_aux 3 (\<lambda>k. None)))
      \<lparr>pidx = 0, maprank = 1, eqidx = 0\<rparr> = Inr p" "puzzle_valid p"
    by blast
  from p(1) have "p = solved_puzzle" by (simp only: invert_index_ax01 [unfolded ax01_def] sum.inject)
  with p(2) have "puzzle_valid solved_puzzle" by simp
  with tileset_indexable_3 o v invert_index_ax01 [unfolded ax01_def] show ?thesis
    by (intro conjI)
qed

text \<open>
  Claim C5.  For a tile set with the zero tile and a valid index \<open>idx\<close>, the puzzle made
  by \<open>invert_index\<close> has the zero tile at the least set bit of the class of \<open>idx\<close>, that is,
  at the least grid position that the table \<open>eqclasses\<close> of \<open>idxt[maprank]\<close> sends to \<open>eqidx\<close>.
  That table is the one that the flood fill makes for the map of rank \<open>maprank\<close>, and the
  zero tile is put on no position of this map.
\<close>

theorem invert_index_zero_canonical:
  assumes "tileset_indexable tset" and "index_tables_ok cache"
    and "index_valid (fst (make_index_aux tset cache)) idx"
    and "tileset_has tset ZERO_TILE"
  shows "\<exists>p eq tbl. invert_index (fst (make_index_aux tset cache)) idx = Inr p
      \<and> eqclass_from_index (fst (make_index_aux tset cache)) idx = Inr eq
      \<and> idxt (fst (make_index_aux tset cache)) = Some tbl
      \<and> zero_location p = tileset_get_least eq
      \<and> tileset_has eq (zero_location p)
      \<and> (\<forall>g. tileset_has eq g \<longleftrightarrow> g < TILE_COUNT \<and> eqclasses (tbl ! maprank idx) ! g = eqidx idx)
      \<and> (\<forall>g. tileset_has eq g \<longrightarrow> zero_location p \<le> g)
      \<and> eqclasses (tbl ! maprank idx)
          = fst (tileset_populate_eqclasses
              (tileset_unrank (tileset_count (tileset_remove tset ZERO_TILE)) (maprank idx)))
      \<and> \<not> tileset_has (tileset_unrank (tileset_count (tileset_remove tset ZERO_TILE)) (maprank idx))
            (zero_location p)"
proof -
  define mp where "mp = tileset_unrank (tileset_count (tileset_remove tset ZERO_TILE)) (maprank idx)"
  define p0 where "p0 = unindex_permutation
      \<lparr>tiles = replicate TILE_COUNT 0, grid = replicate TILE_COUNT 0\<rparr>
      (tileset_remove tset ZERO_TILE) mp (pidx idx)"
  note u = invert_index_unfold [OF assms(1-3), folded mp_def, folded p0_def]
  from u(1) have "length (tiles p0) = TILE_COUNT" by (simp add: puzzle_inverse_def)
  then have z: "zero_location (move p0 d) = d" for d
    by (rule move_zero_location)
  have ts: "ts (fst (make_index_aux tset cache)) = tset" by (simp add: make_index_aux_fields)
  from assms(3,4) have nonneg: "0 \<le> eqidx idx"
    by (simp add: index_valid_def ts split: option.splits)
  from u(3) [OF assms(4)] show ?thesis
  proof (elim exE conjE)
    fix eq tbl
    assume t: "idxt (fst (make_index_aux tset cache)) = Some tbl"
      and q: "eqclass_from_index (fst (make_index_aux tset cache)) idx = Inr eq"
      and nz: "eq \<noteq> 0"
      and b: "\<forall>g. bit eq g \<longleftrightarrow> g < TILE_COUNT \<and> eqclasses (tbl ! maprank idx) ! g = eqidx idx"
      and r: "invert_index (fst (make_index_aux tset cache)) idx
        = Inr (move p0 (tileset_get_least eq))"
      and e: "eqclasses (tbl ! maprank idx) = fst (tileset_populate_eqclasses mp)"
    let ?p = "move p0 (tileset_get_least eq)"
    have lb: "bit eq (tileset_get_least eq)" by (rule tileset_get_least_bit [OF nz])
    have m: "tileset_has eq (zero_location ?p)"
      unfolding z using lb by (simp add: tileset_has_bit)
    have l: "\<forall>g. tileset_has eq g \<longrightarrow> zero_location ?p \<le> g"
      unfolding z by (simp add: tileset_has_bit tileset_get_least_le)
    have c: "\<forall>g. tileset_has eq g \<longleftrightarrow>
        g < TILE_COUNT \<and> eqclasses (tbl ! maprank idx) ! g = eqidx idx"
      using b by (simp add: tileset_has_bit)
    have n: "\<not> tileset_has mp (zero_location ?p)"
    proof
      assume "tileset_has mp (zero_location ?p)"
      then have bm: "bit mp (tileset_get_least eq)" by (simp add: z tileset_has_bit)
      from lb b have lt: "tileset_get_least eq < TILE_COUNT"
        and v: "eqclasses (tbl ! maprank idx) ! tileset_get_least eq = eqidx idx" by simp_all
      from populate_map_entries [OF bm lt] v e nonneg show False by simp
    qed
    have "invert_index (fst (make_index_aux tset cache)) idx = Inr ?p
        \<and> eqclass_from_index (fst (make_index_aux tset cache)) idx = Inr eq
        \<and> idxt (fst (make_index_aux tset cache)) = Some tbl
        \<and> zero_location ?p = tileset_get_least eq
        \<and> tileset_has eq (zero_location ?p)
        \<and> (\<forall>g. tileset_has eq g \<longleftrightarrow> g < TILE_COUNT \<and> eqclasses (tbl ! maprank idx) ! g = eqidx idx)
        \<and> (\<forall>g. tileset_has eq g \<longrightarrow> zero_location ?p \<le> g)
        \<and> eqclasses (tbl ! maprank idx) = fst (tileset_populate_eqclasses mp)
        \<and> \<not> tileset_has mp (zero_location ?p)"
      using r q t z [of "tileset_get_least eq"] m c l e n by (intro conjI)
    then show ?thesis unfolding mp_def by (intro exI)
  qed
qed

theorem invert_index_zero_canonical_witness:
  "tileset_indexable 7 \<and> index_tables_ok (\<lambda>k. None)
   \<and> index_valid (fst (make_index_aux 7 (\<lambda>k. None))) \<lparr>pidx = 0, maprank = 11, eqidx = 1\<rparr>
   \<and> tileset_has 7 ZERO_TILE
   \<and> tileset_unrank 2 11 = 34
   \<and> eqclass_from_index (fst (make_index_aux 7 (\<lambda>k. None))) \<lparr>pidx = 0, maprank = 11, eqidx = 1\<rparr>
       = Inr 0x1FFFFDC
   \<and> invert_index (fst (make_index_aux 7 (\<lambda>k. None))) \<lparr>pidx = 0, maprank = 11, eqidx = 1\<rparr>
       = Inr \<lparr>tiles = [2,1,5,0,3,4,6,7,8,9,10,11,12,13,14,15,16,17,18,19,20,21,22,23,24],
              grid = [3,1,0,4,5,2,6,7,8,9,10,11,12,13,14,15,16,17,18,19,20,21,22,23,24]\<rparr>
   \<and> zero_location \<lparr>tiles = [2,1,5,0,3,4,6,7,8,9,10,11,12,13,14,15,16,17,18,19,20,21,22,23,24],
              grid = [3,1,0,4,5,2,6,7,8,9,10,11,12,13,14,15,16,17,18,19,20,21,22,23,24]\<rparr>
       = tileset_get_least 0x1FFFFDC
   \<and> tileset_get_least 0x1FFFFDC = 2"
proof -
  let ?p = "\<lparr>tiles = [2,1,5,0,3,4,6,7,8,9,10,11,12,13,14,15,16,17,18,19,20,21,22,23,24],
              grid = [3,1,0,4,5,2,6,7,8,9,10,11,12,13,14,15,16,17,18,19,20,21,22,23,24]\<rparr>"
  have o: "index_tables_ok (\<lambda>k. None)" by (simp add: index_tables_ok_def)
  have h: "tileset_has 7 ZERO_TILE" by (simp add: tileset_has_def ZERO_TILE_def)
  note v = index_valid_ax012 [unfolded ax012_def]
  note i = invert_index_ax012 [unfolded ax012_def]
  note e = eqclass_ax012 [unfolded ax012_def]
  have l: "tileset_get_least 0x1FFFFDC = 2" by code_simp
  from invert_index_zero_canonical [OF tileset_indexable_7 o v h]
  obtain p eq where "invert_index (fst (make_index_aux 7 (\<lambda>k. None)))
      \<lparr>pidx = 0, maprank = 11, eqidx = 1\<rparr> = Inr p"
    and "eqclass_from_index (fst (make_index_aux 7 (\<lambda>k. None)))
      \<lparr>pidx = 0, maprank = 11, eqidx = 1\<rparr> = Inr eq"
    and z: "zero_location p = tileset_get_least eq"
    by (elim exE conjE)
  then have "p = ?p" "eq = 0x1FFFFDC" by (simp_all only: i e sum.inject)
  with z have "zero_location ?p = tileset_get_least 0x1FFFFDC" by simp
  with tileset_indexable_7 o v h unrank_2_11 e i l show ?thesis by (intro conjI)
qed

subsection \<open>The portable \<open>tile_map\<close> counts the zero tile\<close>

text \<open>
  Claim C3.  The comment of \<open>tile_map\<close> and the specification take the map to be the grid
  locations of the non-zero tiles of the tile set, and so do the vectorised variants,
  which read \<open>aux->tiles\<close>.  The portable variant starts its loop from \<open>aux->ts\<close>, so for
  a tile set with the zero tile the map has one location too many.  For the tile set
  \<open>{0, 1}\<close> and the solved puzzle the portable variant makes \<open>compute_index\<close> return
  \<open>pidx = 1\<close> where \<open>n_perm = 1\<close>, and \<open>eqidx = -1\<close> although the zero tile is in the tile
  set; the vectorised variant returns an index in range.
\<close>

theorem compute_index_portable_out_of_range:
  "tileset_indexable 3 \<and> tileset_has 3 ZERO_TILE
   \<and> n_perm (fst (make_index_aux 3 (\<lambda>k. None))) = 1
   \<and> n_maprank (fst (make_index_aux 3 (\<lambda>k. None))) = 25
   \<and> compute_index Portable (fst (make_index_aux 3 (\<lambda>k. None))) solved_puzzle
       = Inr \<lparr>pidx = 1, maprank = 0, eqidx = - 1\<rparr>
   \<and> compute_index Vectorised (fst (make_index_aux 3 (\<lambda>k. None))) solved_puzzle
       = Inr \<lparr>pidx = 0, maprank = 1, eqidx = 0\<rparr>"
proof -
  have h: "tileset_has 3 ZERO_TILE" by (simp add: tileset_has_def ZERO_TILE_def)
  from tileset_indexable_3 h ax01_fields(3) [unfolded ax01_def] ax01_fields(2) [unfolded ax01_def]
    compute_index_portable_ax01 [unfolded ax01_def]
    compute_index_vectorised_ax01 [unfolded ax01_def]
  show ?thesis by (intro conjI)
qed

text \<open>
  Claim C1.  For the same tile set the index \<open>(pidx = 0, maprank = 1, eqidx = 0)\<close> is
  valid; \<open>invert_index\<close> makes the solved puzzle from it; \<open>compute_index\<close> with the
  portable \<open>tile_map\<close> then returns another index, with the vectorised \<open>tile_map\<close> it
  returns the index that was inverted.
\<close>

theorem index_round_trip_portable_fails:
  "index_valid (fst (make_index_aux 3 (\<lambda>k. None))) \<lparr>pidx = 0, maprank = 1, eqidx = 0\<rparr>
   \<and> invert_index (fst (make_index_aux 3 (\<lambda>k. None))) \<lparr>pidx = 0, maprank = 1, eqidx = 0\<rparr>
       = Inr solved_puzzle
   \<and> compute_index Portable (fst (make_index_aux 3 (\<lambda>k. None))) solved_puzzle
       = Inr \<lparr>pidx = 1, maprank = 0, eqidx = - 1\<rparr>
   \<and> compute_index Vectorised (fst (make_index_aux 3 (\<lambda>k. None))) solved_puzzle
       = Inr \<lparr>pidx = 0, maprank = 1, eqidx = 0\<rparr>"
proof -
  from index_valid_ax01 [unfolded ax01_def] invert_index_ax01 [unfolded ax01_def]
    compute_index_portable_ax01 [unfolded ax01_def]
    compute_index_vectorised_ax01 [unfolded ax01_def]
  show ?thesis by (intro conjI)
qed

section \<open>Pattern databases (pdb.h)\<close>

text \<open>
  \<open>struct patterndb\<close>: the index data \<open>aux\<close>, the flag \<open>mapped\<close> and one byte array per
  map rank.  An entry pointer is modelled as the pair of the table's number and the
  offset in that table; distinct tables do not overlap.  The entries are
  \<open>atomic_uchar\<close>; the model is sequential, so a relaxed atomic load or store is a read
  or a write of the byte.  An access outside the tables is not modelled (a read is
  unspecified, a write is left out by \<open>list_update\<close>); the theorem below is about
  entries in range.

  In \<open>pdb_entry_pointer\<close> the product \<open>idx->eqidx * pdb->aux.n_perm\<close> is a product of
  \<open>unsigned\<close> values and wraps at 32 bits; it is added to the pointer
  \<open>pdb->tables[idx->maprank]\<close>, and \<open>idx->pidx\<close> is added to the resulting pointer, so the
  sum of the two offsets does not wrap.
\<close>

record patterndb =
  aux :: index_aux
  mapped :: bool
  tables :: "8 word list list"


definition pdb_entry_pointer :: "patterndb \<Rightarrow> index \<Rightarrow> nat \<times> nat" where
  "pdb_entry_pointer pdb idx =
     (if tileset_has (ts (aux pdb)) ZERO_TILE
      then (maprank idx,
            unat (word_of_int (eqidx idx) * n_perm (aux pdb) :: 32 word) + unat (pidx idx))
      else (maprank idx, unat (pidx idx)))"



definition atomic_store :: "patterndb \<Rightarrow> nat \<times> nat \<Rightarrow> 8 word \<Rightarrow> patterndb" where
  "atomic_store pdb e v = pdb\<lparr>tables := (tables pdb)[fst e := (tables pdb ! fst e)[snd e := v]]\<rparr>"


definition pdb_update :: "patterndb \<Rightarrow> index \<Rightarrow> 32 word \<Rightarrow> patterndb" where
  "pdb_update pdb idx dist = atomic_store pdb (pdb_entry_pointer pdb idx) (ucast dist)"


subsection \<open>The conditional update writes one entry, and only if it is unreached\<close>

















section \<open>Pattern database catalogues (catalogue.h)\<close>

definition CATALOGUE_PDBS_LEN :: nat where
  "CATALOGUE_PDBS_LEN = 64"

definition HEURISTICS_LEN :: nat where
  "HEURISTICS_LEN = 32"

text \<open>
  \<open>struct pdb_catalogue\<close>: \<open>parts\<close> holds one 64-bit bitmap of PDB numbers per
  heuristic.  The member \<open>pdbs\<close> (pointers to the loaded pattern databases) is not read
  by \<open>catalogue_ph_hval\<close> and is left out; \<open>pdbs_ts\<close> holds the tile sets as 32-bit masks.
  \<open>struct partial_hvals\<close> is an array of \<open>unsigned char\<close>.
\<close>

record pdb_catalogue =
  pdbs_ts :: "32 word list"
  parts :: "64 word list"
  n_pdbs :: nat
  n_heuristics :: nat

record partial_hvals =
  hvals :: "8 word list"

text \<open>
  The inner loop of \<open>catalogue_ph_hval\<close>:
  \<^verbatim>\<open>for (parts = cat->parts[i]; parts != 0; parts &= parts - 1) sum += ph->hvals[ctzll(parts)];\<close>
  with \<open>sum\<close> (here \<open>acc\<close>) an \<open>unsigned\<close> (32 bits, wrapping).
\<close>

function sum_parts :: "partial_hvals \<Rightarrow> 64 word \<Rightarrow> 32 word \<Rightarrow> 32 word" where
  "sum_parts ph ps acc =
     (if ps = 0 then acc
      else sum_parts ph (ps AND (ps - 1)) (acc + ucast (hvals ph ! ctzll ps)))"
  by pat_completeness auto
termination
  by (relation "measure (\<lambda>(ph, ps, acc). unat ps)") (simp_all add: word_and_pred_less)

declare sum_parts.simps [simp del]

text \<open>The outer loop over the heuristics, with the running maximum \<open>mx\<close>.\<close>

function ph_hval_loop :: "pdb_catalogue \<Rightarrow> partial_hvals \<Rightarrow> nat \<Rightarrow> 32 word \<Rightarrow> 32 word" where
  "ph_hval_loop cat ph i mx =
     (if i < n_heuristics cat
      then (let acc = sum_parts ph (parts cat ! i) 0
            in ph_hval_loop cat ph (i + 1) (if acc > mx then acc else mx))
      else mx)"
  by pat_completeness auto
termination
  by (relation "measure (\<lambda>(cat, ph, i, mx). n_heuristics cat - i)") simp_all

declare ph_hval_loop.simps [simp del]

definition catalogue_ph_hval :: "pdb_catalogue \<Rightarrow> partial_hvals \<Rightarrow> 32 word" where
  "catalogue_ph_hval cat ph = ph_hval_loop cat ph 0 0"

subsection \<open>The catalogue h value is the maximum of the heuristics' sums\<close>

lemma sum_parts_eq:
  "sum_parts ph ps acc = acc + of_nat (\<Sum>j\<leftarrow>bits_of ps. unat (hvals ph ! j))"
proof (induction ph ps acc rule: sum_parts.induct)
  case (1 ph ps acc)
  show ?case
  proof (cases "ps = 0")
    case True
    then show ?thesis by (subst sum_parts.simps) (simp add: bits_of_def)
  next
    case False
    then have ne: "bits_of ps \<noteq> []" by (simp add: bits_of_Nil_iff)
    have c: "ctzll ps = hd (bits_of ps)" using False by (simp add: ctzll_def ctz_hd_bits_of)
    have t: "bits_of (ps AND (ps - 1)) = tl (bits_of ps)" by (rule bits_of_clear_least [OF False])
    have split: "bits_of ps = hd (bits_of ps) # tl (bits_of ps)" using ne by simp
    have "sum_parts ph ps acc
          = sum_parts ph (ps AND (ps - 1)) (acc + ucast (hvals ph ! ctzll ps))"
      using False by (simp add: sum_parts.simps [of ph ps])
    also have "\<dots> = acc + ucast (hvals ph ! ctzll ps)
          + of_nat (\<Sum>j\<leftarrow>bits_of (ps AND (ps - 1)). unat (hvals ph ! j))"
      by (rule "1.IH" [OF False])
    also have "\<dots> = acc + of_nat (unat (hvals ph ! hd (bits_of ps))
          + (\<Sum>j\<leftarrow>tl (bits_of ps). unat (hvals ph ! j)))"
      by (simp add: c t)
    also have "unat (hvals ph ! hd (bits_of ps)) + (\<Sum>j\<leftarrow>tl (bits_of ps). unat (hvals ph ! j))
          = (\<Sum>j\<leftarrow>bits_of ps. unat (hvals ph ! j))"
      by (subst (3) split) simp
    finally show ?thesis .
  qed
qed

lemma sum_list_u8_bound:
  "(\<Sum>j\<leftarrow>xs. unat (f j :: 8 word)) \<le> 255 * length xs"
proof (induction xs)
  case (Cons x xs)
  have "unat (f x) < 2 ^ 8" using unsigned_less [of "f x"] by simp
  with Cons show ?case by simp
qed simp

lemma heuristic_sum_bound:
  "(\<Sum>j\<leftarrow>bits_of (ps :: 64 word). unat (hvals ph ! j)) \<le> 16320"
proof -
  have "length (bits_of ps) \<le> 64" by (simp add: bits_of_def) (metis diff_zero length_filter_le length_upt)
  with sum_list_u8_bound [of "\<lambda>j. hvals ph ! j" "bits_of ps"] show ?thesis by simp
qed

lemma unat_sum_parts:
  "unat (sum_parts ph ps 0) = (\<Sum>j\<leftarrow>bits_of ps. unat (hvals ph ! j))"
proof -
  have "(\<Sum>j\<leftarrow>bits_of ps. unat (hvals ph ! j)) < 2 ^ 32"
    using heuristic_sum_bound [where ps = ps and ph = ph] by simp
  then show ?thesis
    by (simp add: sum_parts_eq unat_of_nat)
qed

lemma sum_list_bits_of:
  "(\<Sum>j\<leftarrow>bits_of w. f j) = (\<Sum>j\<in>{j. bit w j}. f j)" for f :: "nat \<Rightarrow> nat"
  using sum_list_distinct_conv_sum_set [OF distinct_bits_of, of f w]
  by (simp add: set_bits_of)

lemma ph_hval_loop_Max:
  "unat (ph_hval_loop cat ph i mx) =
   Max (insert (unat mx) ((\<lambda>k. \<Sum>j\<leftarrow>bits_of (parts cat ! k). unat (hvals ph ! j)) ` {i..<n_heuristics cat}))"
proof (induction cat ph i mx rule: ph_hval_loop.induct)
  case (1 cat ph i mx)
  let ?S = "\<lambda>k. \<Sum>j\<leftarrow>bits_of (parts cat ! k). unat (hvals ph ! j)"
  show ?case
  proof (cases "i < n_heuristics cat")
    case False
    then show ?thesis by (simp add: ph_hval_loop.simps [of cat ph i mx])
  next
    case True
    define acc where "acc = sum_parts ph (parts cat ! i) 0"
    define mx' where "mx' = (if acc > mx then acc else mx)"
    have acc: "unat acc = ?S i" by (simp add: acc_def unat_sum_parts)
    have mx': "unat mx' = max (unat mx) (?S i)"
      by (auto simp: mx'_def acc [symmetric] word_less_nat_alt max_def)
    have "ph_hval_loop cat ph i mx = ph_hval_loop cat ph (i + 1) mx'"
      using True by (simp add: ph_hval_loop.simps [of cat ph i mx] acc_def mx'_def Let_def)
    also have "unat \<dots> = Max (insert (unat mx') (?S ` {i + 1..<n_heuristics cat}))"
      using "1.IH" [OF True acc_def] by (simp add: mx'_def)
    also have "\<dots> = Max (insert (unat mx) (insert (?S i) (?S ` {i + 1..<n_heuristics cat})))"
    proof -
      have fin: "finite (?S ` {i + 1..<n_heuristics cat})" by simp
      show ?thesis
        unfolding mx'
        by (cases "?S ` {i + 1..<n_heuristics cat} = {}")
          (simp_all add: Max_insert [OF fin] max.assoc)
    qed
    also have "insert (?S i) (?S ` {i + 1..<n_heuristics cat}) = ?S ` {i..<n_heuristics cat}"
    proof -
      have "{i..<n_heuristics cat} = insert i {i + 1..<n_heuristics cat}" using True by auto
      then show ?thesis by simp
    qed
    finally show ?thesis .
  qed
qed

text \<open>
  Claim C2.  For a catalogue whose arrays have their declared lengths and whose
  \<open>n_heuristics\<close> is within \<open>HEURISTICS_LEN\<close>, \<open>catalogue_ph_hval\<close> returns the maximum,
  over the first \<open>n_heuristics\<close> heuristics, of the sum of \<open>hvals[j]\<close> over the PDB numbers
  \<open>j\<close> set in the heuristic's \<open>parts\<close> bitmap, and 0 when there is no heuristic.  The
  32-bit accumulator never wraps: a sum has at most 64 terms of at most 255.
\<close>

theorem catalogue_ph_hval_max_of_sums:
  assumes "length (hvals ph) = CATALOGUE_PDBS_LEN"
    and "length (parts cat) = HEURISTICS_LEN"
    and "n_heuristics cat \<le> HEURISTICS_LEN"
  shows "unat (catalogue_ph_hval cat ph) =
    (if n_heuristics cat = 0 then 0
     else Max ((\<lambda>i. \<Sum>j\<in>{j. bit (parts cat ! i) j}. unat (hvals ph ! j)) ` {..<n_heuristics cat}))"
proof (cases "n_heuristics cat = 0")
  case True
  then show ?thesis by (simp add: catalogue_ph_hval_def ph_hval_loop.simps [of cat ph 0 0])
next
  case False
  let ?S = "\<lambda>i. \<Sum>j\<in>{j. bit (parts cat ! i) j}. unat (hvals ph ! j)"
  let ?A = "?S ` {..<n_heuristics cat}"
  have A: "finite ?A" "?A \<noteq> {}" using False by auto
  have "unat (catalogue_ph_hval cat ph) = Max (insert 0 ?A)"
    by (simp add: catalogue_ph_hval_def ph_hval_loop_Max sum_list_bits_of atLeast0LessThan)
  also have "\<dots> = max 0 (Max ?A)" using A by simp
  also have "\<dots> = Max ?A" by simp
  finally show ?thesis using False by simp
qed

theorem catalogue_ph_hval_max_of_sums_witness:
  "unat (catalogue_ph_hval
      \<lparr>pdbs_ts = [], parts = [3, 4] @ replicate 30 0, n_pdbs = 3, n_heuristics = 2\<rparr>
      \<lparr>hvals = [5, 7, 20] @ replicate 61 0\<rparr>) = 20
   \<and> Max ((\<lambda>i. \<Sum>j\<in>{j. bit (([3, 4] @ replicate 30 (0 :: 64 word)) ! i) j}.
        unat (([5, 7, 20] @ replicate 61 (0 :: 8 word)) ! j)) ` {..<2}) = 20"
proof -
  let ?cat = "\<lparr>pdbs_ts = [], parts = [3, 4] @ replicate 30 0, n_pdbs = 3, n_heuristics = 2\<rparr>"
  let ?ph = "\<lparr>hvals = [5, 7, 20] @ replicate 61 0\<rparr>"
  have v: "unat (catalogue_ph_hval ?cat ?ph) = 20" by code_simp
  have "unat (catalogue_ph_hval ?cat ?ph) =
    (if n_heuristics ?cat = 0 then 0
     else Max ((\<lambda>i. \<Sum>j\<in>{j. bit (parts ?cat ! i) j}. unat (hvals ?ph ! j)) ` {..<n_heuristics ?cat}))"
    by (rule catalogue_ph_hval_max_of_sums) (simp_all add: CATALOGUE_PDBS_LEN_def HEURISTICS_LEN_def)
  with v show ?thesis by simp
qed

section \<open>Finite state machines for move pruning (fsm.h, fsm.c)\<close>

text \<open>
  \<open>struct fsm\<close> holds, for each of the 25 zero positions, a table of states; a state is
  a row of four entries, one per move out of that position, in the order of
  \<open>get_moves\<close>.  An entry is the number of the state reached in the table of the new zero
  position, or a sentinel.  The header fsm.h is not among the source files.  Modelled
  from the spec: the "distinguished sentinel values FSM_BEGIN, FSM_MATCH (reject), and
  FSM_UNASSIGNED", \<open>FSM_BEGIN\<close> being state 0 (the row marked "begin" in fsm.c) and the
  other two the largest \<open>unsigned\<close> values, beyond every state number; and the
  transition: "a deterministic finite automaton indexed by zero position", where a
  state \<open>(zloc, state)\<close> and the \<open>m\<close>-th move out of \<open>zloc\<close> lead to the entry
  \<open>tables[zloc][state][m]\<close> at the new zero position.
\<close>

definition FSM_BEGIN :: "32 word" where
  "FSM_BEGIN = 0"

definition FSM_MATCH :: "32 word" where
  "FSM_MATCH = 0xfffffffe"

definition FSM_UNASSIGNED :: "32 word" where
  "FSM_UNASSIGNED = 0xffffffff"

record fsm =
  sizes :: "nat list"
  fsm_tables :: "32 word list list list"

record fsm_state =
  zloc :: nat
  state :: "32 word"

definition fsm_start_state :: "nat \<Rightarrow> fsm_state" where
  "fsm_start_state z = \<lparr>zloc = z, state = FSM_BEGIN\<rparr>"

definition fsm_is_match :: "fsm_state \<Rightarrow> bool" where
  "fsm_is_match st \<longleftrightarrow> state st = FSM_MATCH"

definition fsm_advance :: "fsm \<Rightarrow> fsm_state \<Rightarrow> nat \<Rightarrow> fsm_state" where
  "fsm_advance fsm st m =
     \<lparr>zloc = nat (get_moves (zloc st) ! m),
      state = fsm_tables fsm ! zloc st ! unat (state st) ! m\<rparr>"

definition fsm_run :: "fsm \<Rightarrow> fsm_state \<Rightarrow> nat list \<Rightarrow> fsm_state" where
  "fsm_run fsm st ms = fold (\<lambda>m s. fsm_advance fsm s m) ms st"

text \<open>A move index is legal at a zero position when the move table has a position
  there, not the filler \<open>-1\<close>.\<close>

definition legal_move :: "nat \<Rightarrow> nat \<Rightarrow> bool" where
  "legal_move z m \<longleftrightarrow> m < 4 \<and> 0 \<le> get_moves z ! m"

subsection \<open>The tables of fsm.c\<close>

definition dummy_states :: "32 word list list" where
  "dummy_states = [[FSM_BEGIN, FSM_BEGIN, FSM_BEGIN, FSM_BEGIN]]"

definition fsm_dummy :: fsm where
  "fsm_dummy = \<lparr>sizes = replicate 25 1, fsm_tables = replicate 25 dummy_states\<rparr>"

definition simple_states_LU :: "32 word list list" where
  "simple_states_LU = [
     [             2,              1, FSM_UNASSIGNED, FSM_UNASSIGNED],
     [FSM_UNASSIGNED, FSM_UNASSIGNED, FSM_UNASSIGNED, FSM_UNASSIGNED],
     [FSM_UNASSIGNED, FSM_UNASSIGNED, FSM_UNASSIGNED, FSM_UNASSIGNED],
     [     FSM_MATCH,              1, FSM_UNASSIGNED, FSM_UNASSIGNED],
     [             2,      FSM_MATCH, FSM_UNASSIGNED, FSM_UNASSIGNED]]"

definition simple_states_U :: "32 word list list" where
  "simple_states_U = [
     [             3,              2,              1, FSM_UNASSIGNED],
     [FSM_UNASSIGNED, FSM_UNASSIGNED, FSM_UNASSIGNED, FSM_UNASSIGNED],
     [     FSM_MATCH,              2,              1, FSM_UNASSIGNED],
     [             3,      FSM_MATCH,              1, FSM_UNASSIGNED],
     [             3,              2,      FSM_MATCH, FSM_UNASSIGNED]]"

definition simple_states_RU :: "32 word list list" where
  "simple_states_RU = [
     [             3,              1, FSM_UNASSIGNED, FSM_UNASSIGNED],
     [FSM_UNASSIGNED, FSM_UNASSIGNED, FSM_UNASSIGNED, FSM_UNASSIGNED],
     [     FSM_MATCH,              1, FSM_UNASSIGNED, FSM_UNASSIGNED],
     [FSM_UNASSIGNED, FSM_UNASSIGNED, FSM_UNASSIGNED, FSM_UNASSIGNED],
     [             3,      FSM_MATCH, FSM_UNASSIGNED, FSM_UNASSIGNED]]"

definition simple_states_L :: "32 word list list" where
  "simple_states_L = [
     [             4,              2,              1, FSM_UNASSIGNED],
     [     FSM_MATCH,              2,              1, FSM_UNASSIGNED],
     [FSM_UNASSIGNED, FSM_UNASSIGNED, FSM_UNASSIGNED, FSM_UNASSIGNED],
     [             4,      FSM_MATCH,              1, FSM_UNASSIGNED],
     [             4,              2,      FSM_MATCH, FSM_UNASSIGNED]]"

definition simple_states_LD :: "32 word list list" where
  "simple_states_LD = simple_states_L"

definition simple_states_C :: "32 word list list" where
  "simple_states_C = [
     [             4,              3,              2,              1],
     [     FSM_MATCH,              3,              2,              1],
     [             4,      FSM_MATCH,              2,              1],
     [             4,              3,      FSM_MATCH,              1],
     [             4,              3,              2,      FSM_MATCH]]"

definition simple_states_D :: "32 word list list" where
  "simple_states_D = simple_states_C"

definition simple_states_RD :: "32 word list list" where
  "simple_states_RD = simple_states_C"

definition simple_states_R :: "32 word list list" where
  "simple_states_R = [
     [             4,              3,              1, FSM_UNASSIGNED],
     [     FSM_MATCH,              3,              1, FSM_UNASSIGNED],
     [             4,      FSM_MATCH,              1, FSM_UNASSIGNED],
     [FSM_UNASSIGNED, FSM_UNASSIGNED, FSM_UNASSIGNED, FSM_UNASSIGNED],
     [             4,              3,      FSM_MATCH, FSM_UNASSIGNED]]"

definition fsm_simple :: fsm where
  "fsm_simple = \<lparr>sizes = replicate 25 5,
     fsm_tables = [
       simple_states_LU, simple_states_U, simple_states_U, simple_states_U, simple_states_RU,
       simple_states_L, simple_states_C, simple_states_C, simple_states_C, simple_states_R,
       simple_states_L, simple_states_C, simple_states_C, simple_states_C, simple_states_R,
       simple_states_L, simple_states_C, simple_states_C, simple_states_C, simple_states_R,
       simple_states_LD, simple_states_D, simple_states_D, simple_states_D, simple_states_RD]\<rparr>"

subsection \<open>\<open>fsm_dummy\<close> stays in its begin state\<close>

lemma get_moves_range_all:
  "\<forall>z \<in> set [0..<25]. \<forall>m \<in> set [0..<4]. nat (get_moves z ! m) < 25"
  by code_simp

lemma get_moves_range:
  assumes "z < 25" "m < 4"
  shows "nat (get_moves z ! m) < 25"
  using get_moves_range_all assms by simp

lemma dummy_states_entries: "\<forall>m \<in> set [0..<4]. dummy_states ! 0 ! m = FSM_BEGIN"
  by code_simp

lemma fsm_dummy_advance:
  assumes "zloc st < 25" "state st = FSM_BEGIN" "m < 4"
  shows "zloc (fsm_advance fsm_dummy st m) < 25 \<and> state (fsm_advance fsm_dummy st m) = FSM_BEGIN"
proof -
  have "dummy_states ! 0 ! m = FSM_BEGIN" using dummy_states_entries assms(3) by simp
  then have "state (fsm_advance fsm_dummy st m) = FSM_BEGIN"
    using assms(1,2) by (simp add: fsm_advance_def fsm_dummy_def FSM_BEGIN_def)
  moreover have "zloc (fsm_advance fsm_dummy st m) < 25"
    using get_moves_range [OF assms(1,3)] by (simp add: fsm_advance_def)
  ultimately show ?thesis by simp
qed

lemma fsm_dummy_run:
  assumes "zloc st < 25" "state st = FSM_BEGIN" "\<forall>m \<in> set ms. m < 4"
  shows "state (fsm_run fsm_dummy st ms) = FSM_BEGIN"
  using assms
proof (induction ms arbitrary: st)
  case Nil
  then show ?case by (simp add: fsm_run_def)
next
  case (Cons m ms)
  from Cons.prems have m: "m < 4" by simp
  from fsm_dummy_advance [OF Cons.prems(1,2) m] Cons.prems(3)
  have "state (fsm_run fsm_dummy (fsm_advance fsm_dummy st m) ms) = FSM_BEGIN"
    by (intro Cons.IH) simp_all
  then show ?case by (simp add: fsm_run_def)
qed

subsection \<open>\<open>fsm_simple\<close> rejects exactly the immediate reversals\<close>

lemma fsm_simple_two_moves:
  "\<forall>z \<in> set [0..<25]. \<forall>m1 \<in> set [0..<4].
     if legal_move z m1
     then \<not> fsm_is_match (fsm_advance fsm_simple (fsm_start_state z) m1) \<and>
       (\<forall>m2 \<in> set [0..<4].
          if legal_move (zloc (fsm_advance fsm_simple (fsm_start_state z) m1)) m2
          then fsm_is_match (fsm_advance fsm_simple (fsm_advance fsm_simple (fsm_start_state z) m1) m2)
            \<longleftrightarrow> zloc (fsm_advance fsm_simple (fsm_advance fsm_simple (fsm_start_state z) m1) m2) = z
          else True)
     else True"
  by code_simp

text \<open>
  Claim C7.  From the begin state at any zero position, \<open>fsm_dummy\<close> is never in the
  rejecting state \<open>FSM_MATCH\<close>, whatever sequence of move indices it is run on.
  \<open>fsm_simple\<close>, started in its begin state, does not reject the first legal move, and
  after a second legal move it is in \<open>FSM_MATCH\<close> exactly when that move brings the zero
  tile back to the position it started from.
\<close>

theorem fsm_dummy_accepts_fsm_simple_rejects_reversal:
  assumes "z < TILE_COUNT"
  shows "(\<forall>ms. (\<forall>m \<in> set ms. m < 4) \<longrightarrow>
            \<not> fsm_is_match (fsm_run fsm_dummy (fsm_start_state z) ms))
    \<and> (\<forall>m1 m2. legal_move z m1
            \<and> legal_move (zloc (fsm_run fsm_simple (fsm_start_state z) [m1])) m2 \<longrightarrow>
          \<not> fsm_is_match (fsm_run fsm_simple (fsm_start_state z) [m1]) \<and>
          (fsm_is_match (fsm_run fsm_simple (fsm_start_state z) [m1, m2])
             \<longleftrightarrow> zloc (fsm_run fsm_simple (fsm_start_state z) [m1, m2]) = z))"
proof (intro conjI allI impI)
  fix ms :: "nat list"
  assume ms: "\<forall>m \<in> set ms. m < 4"
  have "state (fsm_run fsm_dummy (fsm_start_state z) ms) = FSM_BEGIN"
    using assms ms by (intro fsm_dummy_run) (simp_all add: fsm_start_state_def TILE_COUNT_def)
  then show "\<not> fsm_is_match (fsm_run fsm_dummy (fsm_start_state z) ms)"
    by (simp add: fsm_is_match_def FSM_BEGIN_def FSM_MATCH_def)
next
  fix m1 m2
  assume l: "legal_move z m1 \<and> legal_move (zloc (fsm_run fsm_simple (fsm_start_state z) [m1])) m2"
  then have m: "m1 < 4" "m2 < 4" by (simp_all add: legal_move_def)
  from l have l1: "legal_move z m1"
    and l2: "legal_move (zloc (fsm_advance fsm_simple (fsm_start_state z) m1)) m2"
    by (simp_all add: fsm_run_def)
  have zin: "z \<in> set [0..<25]" and m1in: "m1 \<in> set [0..<4]" and m2in: "m2 \<in> set [0..<4]"
    using assms m by (simp_all add: TILE_COUNT_def)
  from fsm_simple_two_moves zin m1in l1
  have r1: "\<not> fsm_is_match (fsm_advance fsm_simple (fsm_start_state z) m1)"
    and r2: "\<forall>m2 \<in> set [0..<4].
          if legal_move (zloc (fsm_advance fsm_simple (fsm_start_state z) m1)) m2
          then fsm_is_match (fsm_advance fsm_simple (fsm_advance fsm_simple (fsm_start_state z) m1) m2)
            \<longleftrightarrow> zloc (fsm_advance fsm_simple (fsm_advance fsm_simple (fsm_start_state z) m1) m2) = z
          else True"
    by (metis (full_types))+
  from r2 m2in l2
  have r3: "fsm_is_match (fsm_advance fsm_simple (fsm_advance fsm_simple (fsm_start_state z) m1) m2)
          \<longleftrightarrow> zloc (fsm_advance fsm_simple (fsm_advance fsm_simple (fsm_start_state z) m1) m2) = z"
    by (metis (full_types))
  note r = conjI [OF r1 r3]
  from r show "\<not> fsm_is_match (fsm_run fsm_simple (fsm_start_state z) [m1])"
    by (simp add: fsm_run_def)
  from r show "fsm_is_match (fsm_run fsm_simple (fsm_start_state z) [m1, m2])
             \<longleftrightarrow> zloc (fsm_run fsm_simple (fsm_start_state z) [m1, m2]) = z"
    by (simp add: fsm_run_def)
qed

theorem fsm_dummy_accepts_fsm_simple_rejects_reversal_witness:
  "(0 :: nat) < TILE_COUNT
   \<and> legal_move 0 1 \<and> legal_move (zloc (fsm_run fsm_simple (fsm_start_state 0) [1])) 0
   \<and> zloc (fsm_run fsm_simple (fsm_start_state 0) [1]) = 5
   \<and> zloc (fsm_run fsm_simple (fsm_start_state 0) [1, 0]) = 0
   \<and> fsm_is_match (fsm_run fsm_simple (fsm_start_state 0) [1, 0])
   \<and> \<not> fsm_is_match (fsm_run fsm_simple (fsm_start_state 0) [1, 1])
   \<and> \<not> fsm_is_match (fsm_run fsm_dummy (fsm_start_state 0) [1, 0])"
proof -
  have z: "(0 :: nat) < TILE_COUNT" by (simp add: TILE_COUNT_def)
  have l1: "legal_move 0 1" by code_simp
  have z1: "zloc (fsm_run fsm_simple (fsm_start_state 0) [1]) = 5" by code_simp
  have l2: "legal_move (zloc (fsm_run fsm_simple (fsm_start_state 0) [1])) 0"
    unfolding z1 by code_simp
  have l3: "legal_move (zloc (fsm_run fsm_simple (fsm_start_state 0) [1])) 1"
    unfolding z1 by code_simp
  have z2: "zloc (fsm_run fsm_simple (fsm_start_state 0) [1, 0]) = 0" by code_simp
  have z3: "zloc (fsm_run fsm_simple (fsm_start_state 0) [1, 1]) = 6" by code_simp
  note t = fsm_dummy_accepts_fsm_simple_rejects_reversal [OF z]
  from t l1 l2 z2 have a: "fsm_is_match (fsm_run fsm_simple (fsm_start_state 0) [1, 0])" by blast
  from t l1 l3 z3 have b: "\<not> fsm_is_match (fsm_run fsm_simple (fsm_start_state 0) [1, 1])" by simp
  from t have c: "\<not> fsm_is_match (fsm_run fsm_dummy (fsm_start_state 0) [1, 0])" by simp
  from z l1 l2 z1 z2 a b c show ?thesis by (intro conjI)
qed

section \<open>The heuristic loader (heuristic.c)\<close>

text \<open>
  \<open>heu_open\<close> and its drivers call the operating system and the PDB library.  Their
  answers are the fields of an environment record: opening a file for reading
  (\<open>open\<close> with \<open>O_RDONLY\<close> and \<open>fopen\<close> with \<open>"rb"\<close>) or for writing (\<open>fopen\<close> with
  \<open>"w+b"\<close>) gives an error number or a file handle; \<open>pdb_mmap\<close>, \<open>pdb_allocate\<close>, the
  bitpdb loaders and \<open>bitpdb_from_pdb\<close> give an error number or the object; the store
  functions give \<open>Some\<close> error number when they fail.  \<open>pdb_generate\<close> and \<open>pdb_identify\<close>
  work in place and their results are not checked by the drivers.  The functions
  \<open>canonical_automorphism\<close>, \<open>tileset_morph\<close> and \<open>tileset_list_string\<close> of tileset.c and
  the constant \<open>PATH_MAX\<close> are not among the source files and are taken from the
  environment as well.  The type \<open>'b\<close> stands for \<open>struct bitpdb\<close>.  Messages written
  to \<open>stderr\<close> under \<open>HEU_VERBOSE\<close> are not modelled.

  The header heuristic.h is not among the source files.  Modelled from the spec: the
  flags "CREATE, VERBOSE, NOMORPH, SIMILAR" and the driver flag \<open>HEU_ZEROTILE\<close> are
  distinct bits of an \<open>int\<close>.
\<close>

datatype errno = EINVAL | ENOENT | ENAMETOOLONG | EOTHER nat

definition HEU_CREATE :: "32 word" where
  "HEU_CREATE = 1"

definition HEU_NOMORPH :: "32 word" where
  "HEU_NOMORPH = 2"

definition HEU_VERBOSE :: "32 word" where
  "HEU_VERBOSE = 4"

definition HEU_SIMILAR :: "32 word" where
  "HEU_SIMILAR = 8"

definition HEU_ZEROTILE :: "32 word" where
  "HEU_ZEROTILE = 16"

datatype 'b provider = PdbProvider patterndb | BitpdbProvider 'b

datatype wrapper =
  pdb_hval_wrapper | pdb_hdiff_wrapper | pdb_free_wrapper
  | bitpdb_hval_wrapper | bitpdb_hdiff_wrapper | bitpdb_free_wrapper

record 'b heuristic =
  provider :: "'b provider"
  hval :: wrapper
  hdiff :: wrapper
  free :: wrapper
  heu_ts :: tileset
  morphism :: nat
  derived :: int

record 'b env =
  canonical_automorphism :: "tileset \<Rightarrow> nat"
  tileset_morph :: "tileset \<Rightarrow> nat \<Rightarrow> tileset"
  tileset_list_string :: "tileset \<Rightarrow> string"
  PATH_MAX :: nat
  open_rdonly :: "string \<Rightarrow> errno + nat"
  fopen_rb :: "string \<Rightarrow> errno + nat"
  fopen_wb :: "string \<Rightarrow> errno + nat"
  pdb_mmap :: "tileset \<Rightarrow> nat \<Rightarrow> errno + patterndb"
  pdb_allocate :: "tileset \<Rightarrow> errno + patterndb"
  pdb_generate :: "patterndb \<Rightarrow> patterndb"
  pdb_identify :: "patterndb \<Rightarrow> patterndb"
  pdb_store :: "nat \<Rightarrow> patterndb \<Rightarrow> errno option"
  bitpdb_from_pdb :: "patterndb \<Rightarrow> errno + 'b"
  bitpdb_load :: "tileset \<Rightarrow> nat \<Rightarrow> errno + 'b"
  bitpdb_load_compressed :: "tileset \<Rightarrow> nat \<Rightarrow> errno + 'b"
  bitpdb_store :: "nat \<Rightarrow> 'b \<Rightarrow> errno option"
  bitpdb_store_compressed :: "nat \<Rightarrow> 'b \<Rightarrow> errno option"

text \<open>
  A driver returns 0 and the populated \<open>heu\<close> (\<open>Inr (Inr heu')\<close>), or \<open>-1\<close> with \<open>errno\<close>
  set (\<open>Inr (Inl e)\<close>), or it does not return because the program has passed a null
  pointer to \<open>fclose\<close> (\<open>Inl NullPointer\<close>).
\<close>

type_synonym 'b drv_result = "fault + (errno + 'b heuristic)"

type_synonym 'b heu_driver =
  "'b env \<Rightarrow> 'b heuristic \<Rightarrow> string option \<Rightarrow> tileset \<Rightarrow> string \<Rightarrow> 32 word
     \<Rightarrow> 'b drv_result"

definition pathbuf_of :: "string \<Rightarrow> string \<Rightarrow> string \<Rightarrow> string" where
  "pathbuf_of heudir tsstr suffix = heudir @ ''/'' @ tsstr @ ''.'' @ suffix"

subsection \<open>\<open>common_pdb_driver\<close>\<close>

text \<open>The label \<open>success\<close>: the provider and the three wrappers are stored in \<open>heu\<close>.\<close>

definition pdb_success :: "'b heuristic \<Rightarrow> patterndb \<Rightarrow> 'b drv_result" where
  "pdb_success heu pdb =
     Inr (Inr (heu\<lparr>provider := PdbProvider pdb, hval := pdb_hval_wrapper,
                   hdiff := pdb_hdiff_wrapper, free := pdb_free_wrapper\<rparr>))"

text \<open>
  The label \<open>create_pdb\<close>.  A destination that cannot be opened for writing leaves
  \<open>pdbfile\<close> null and the generated PDB is used as it is; so is it when \<open>pdb_store\<close> fails.
  After a successful store the PDB is freed and mapped from the file.
\<close>

definition pdb_create :: "'b env \<Rightarrow> 'b heuristic \<Rightarrow> string option \<Rightarrow> tileset \<Rightarrow> string
    \<Rightarrow> string \<Rightarrow> bool \<Rightarrow> 'b drv_result" where
  "pdb_create env heu heudir tset tsstr suffix identify =
     (case pdb_allocate env (if identify then tileset_add tset ZERO_TILE else tset) of
        Inl e \<Rightarrow> Inr (Inl e)
      | Inr pdb0 \<Rightarrow>
          (let pdbfile = (case heudir of
                            None \<Rightarrow> None
                          | Some dir \<Rightarrow>
                              (case fopen_wb env (pathbuf_of dir tsstr suffix) of
                                 Inl e \<Rightarrow> None
                               | Inr f \<Rightarrow> Some f));
               pdb1 = pdb_generate env pdb0;
               pdb2 = (if identify then pdb_identify env pdb1 else pdb1)
           in case pdbfile of
                None \<Rightarrow> pdb_success heu pdb2
              | Some f \<Rightarrow>
                  (case pdb_store env f pdb2 of
                     Some e \<Rightarrow> pdb_success heu pdb2
                   | None \<Rightarrow>
                       (case pdb_mmap env tset f of
                          Inl e \<Rightarrow> Inr (Inl e)
                        | Inr pdb3 \<Rightarrow> pdb_success heu pdb3))))"

definition common_pdb_driver :: "'b env \<Rightarrow> 'b heuristic \<Rightarrow> string option \<Rightarrow> tileset \<Rightarrow> string
    \<Rightarrow> 32 word \<Rightarrow> string \<Rightarrow> bool \<Rightarrow> 'b drv_result" where
  "common_pdb_driver env heu heudir tset tsstr flags suffix identify =
     (case heudir of
        None \<Rightarrow>
          if flags AND HEU_CREATE \<noteq> 0
          then pdb_create env heu heudir tset tsstr suffix identify
          else Inr (Inl EINVAL)
      | Some dir \<Rightarrow>
          if length (pathbuf_of dir tsstr suffix) \<ge> PATH_MAX env then Inr (Inl ENAMETOOLONG)
          else (case open_rdonly env (pathbuf_of dir tsstr suffix) of
                  Inl e \<Rightarrow>
                    if flags AND HEU_CREATE \<noteq> 0
                    then pdb_create env heu heudir tset tsstr suffix identify
                    else Inr (Inl e)
                | Inr fd \<Rightarrow>
                    (case pdb_mmap env tset fd of
                       Inl e \<Rightarrow> Inr (Inl e)
                     | Inr pdb \<Rightarrow> pdb_success heu pdb)))"

definition pdb_driver :: "'b heu_driver" where
  "pdb_driver env heu heudir tset tsstr flags =
     common_pdb_driver env heu heudir tset tsstr flags ''pdb'' False"

definition ipdb_driver :: "'b heu_driver" where
  "ipdb_driver env heu heudir tset tsstr flags =
     common_pdb_driver env heu heudir tset tsstr flags ''ipdb'' True"

text \<open>\<open>zpdb_driver\<close> adds the zero tile and writes the new list string into the buffer
  it was given; the model passes the new string on.\<close>

definition zpdb_driver :: "'b heu_driver" where
  "zpdb_driver env heu heudir tset tsstr flags =
     (let tset' = tileset_add tset ZERO_TILE
      in common_pdb_driver env heu heudir tset' (tileset_list_string env tset') flags ''pdb'' False)"

subsection \<open>\<open>common_bitpdb_driver\<close>\<close>

definition bitpdb_success :: "'b heuristic \<Rightarrow> 'b \<Rightarrow> 'b drv_result" where
  "bitpdb_success heu bpdb =
     Inr (Inr (heu\<lparr>provider := BitpdbProvider bpdb, hval := bitpdb_hval_wrapper,
                   hdiff := bitpdb_hdiff_wrapper, free := bitpdb_free_wrapper\<rparr>))"

text \<open>
  The label \<open>create_pdb\<close> of \<open>common_bitpdb_driver\<close>.  When \<open>bitpdb_from_pdb\<close> fails, the
  code calls \<open>fclose(pdbfile)\<close> whether or not \<open>pdbfile\<close> is null; it is null when \<open>heudir\<close>
  is null and when the destination could not be opened for writing, and \<open>fclose\<close> of a
  null pointer is the fault \<open>NullPointer\<close>.
\<close>

definition bitpdb_create :: "'b env \<Rightarrow> 'b heuristic \<Rightarrow> string option \<Rightarrow> tileset \<Rightarrow> string
    \<Rightarrow> string \<Rightarrow> (nat \<Rightarrow> 'b \<Rightarrow> errno option) \<Rightarrow> 'b drv_result" where
  "bitpdb_create env heu heudir tset tsstr suffix store_func =
     (case pdb_allocate env tset of
        Inl e \<Rightarrow> Inr (Inl e)
      | Inr pdb0 \<Rightarrow>
          (let pdbfile = (case heudir of
                            None \<Rightarrow> None
                          | Some dir \<Rightarrow>
                              (case fopen_wb env (pathbuf_of dir tsstr suffix) of
                                 Inl e \<Rightarrow> None
                               | Inr f \<Rightarrow> Some f));
               pdb1 = pdb_generate env pdb0
           in case bitpdb_from_pdb env pdb1 of
                Inl e \<Rightarrow>
                  (case pdbfile of
                     None \<Rightarrow> Inl NullPointer
                   | Some f \<Rightarrow> Inr (Inl e))
              | Inr bpdb \<Rightarrow>
                  (case pdbfile of
                     None \<Rightarrow> bitpdb_success heu bpdb
                   | Some f \<Rightarrow>
                       (case store_func f bpdb of
                          Some e \<Rightarrow> bitpdb_success heu bpdb
                        | None \<Rightarrow> bitpdb_success heu bpdb))))"

definition common_bitpdb_driver :: "'b env \<Rightarrow> 'b heuristic \<Rightarrow> string option \<Rightarrow> tileset \<Rightarrow> string
    \<Rightarrow> 32 word \<Rightarrow> string \<Rightarrow> (tileset \<Rightarrow> nat \<Rightarrow> errno + 'b) \<Rightarrow> (nat \<Rightarrow> 'b \<Rightarrow> errno option)
    \<Rightarrow> 'b drv_result" where
  "common_bitpdb_driver env heu heudir tset tsstr flags suffix load_func store_func =
     (case heudir of
        None \<Rightarrow>
          if flags AND HEU_CREATE \<noteq> 0
          then bitpdb_create env heu heudir tset tsstr suffix store_func
          else Inr (Inl EINVAL)
      | Some dir \<Rightarrow>
          if length (pathbuf_of dir tsstr suffix) \<ge> PATH_MAX env then Inr (Inl ENAMETOOLONG)
          else (case fopen_rb env (pathbuf_of dir tsstr suffix) of
                  Inl e \<Rightarrow>
                    if flags AND HEU_CREATE \<noteq> 0
                    then bitpdb_create env heu heudir tset tsstr suffix store_func
                    else Inr (Inl e)
                | Inr f \<Rightarrow>
                    (case load_func tset f of
                       Inl e \<Rightarrow> Inr (Inl e)
                     | Inr bpdb \<Rightarrow> bitpdb_success heu bpdb)))"

definition zbitpdb_driver :: "'b heu_driver" where
  "zbitpdb_driver env heu heudir tset tsstr_arg flags =
     (let tset' = tileset_add tset ZERO_TILE
      in common_bitpdb_driver env heu heudir tset' (tileset_list_string env tset') flags
           ''bpdb'' (bitpdb_load env) (bitpdb_store env))"

definition bitpdb_driver :: "'b heu_driver" where
  "bitpdb_driver env heu heudir tset tsstr flags =
     common_bitpdb_driver env heu heudir tset tsstr flags
       ''bpdb'' (bitpdb_load env) (bitpdb_store env)"

definition zbitpdb_zstd_driver :: "'b heu_driver" where
  "zbitpdb_zstd_driver env heu heudir tset tsstr_arg flags =
     (let tset' = tileset_add tset ZERO_TILE
      in common_bitpdb_driver env heu heudir tset' (tileset_list_string env tset') flags
           ''bpdb.zst'' (bitpdb_load_compressed env) (bitpdb_store_compressed env))"

definition bitpdb_zstd_driver :: "'b heu_driver" where
  "bitpdb_zstd_driver env heu heudir tset tsstr flags =
     common_bitpdb_driver env heu heudir tset tsstr flags
       ''bpdb.zst'' (bitpdb_load_compressed env) (bitpdb_store_compressed env)"

subsection \<open>The driver table and \<open>heu_open\<close>\<close>

definition drivers :: "(string \<times> 'b heu_driver \<times> 32 word) list" where
  "drivers = [
     (''pdb'', pdb_driver, 0),
     (''ipdb'', ipdb_driver, 0),
     (''zpdb'', zpdb_driver, HEU_ZEROTILE),

     (''bpdb'', bitpdb_driver, 0),
     (''zbpdb'', zbitpdb_driver, HEU_ZEROTILE),

     (''bpdb.zst'', bitpdb_zstd_driver, 0),
     (''zbpdb.zst'', zbitpdb_zstd_driver, HEU_ZEROTILE),

     (''pdb'', bitpdb_driver, HEU_SIMILAR),
     (''zpdb'', zbitpdb_driver, HEU_SIMILAR OR HEU_ZEROTILE),
     (''bpdb.zst'', bitpdb_driver, HEU_SIMILAR),
     (''zbpdb.zst'', zbitpdb_driver, HEU_SIMILAR OR HEU_ZEROTILE),

     (''bpdb'', pdb_driver, HEU_SIMILAR),
     (''zbpdb'', zpdb_driver, HEU_SIMILAR OR HEU_ZEROTILE),
     (''bpdb.zst'', pdb_driver, HEU_SIMILAR),
     (''zbpdb.zst'', zpdb_driver, HEU_SIMILAR OR HEU_ZEROTILE),

     (''pdb'', bitpdb_zstd_driver, HEU_SIMILAR),
     (''zpdb'', zbitpdb_zstd_driver, HEU_SIMILAR OR HEU_ZEROTILE),
     (''bpdb'', bitpdb_zstd_driver, HEU_SIMILAR),
     (''zbpdb'', zbitpdb_zstd_driver, HEU_SIMILAR OR HEU_ZEROTILE)]"

text \<open>
  The tile sets and strings that \<open>heu_open\<close> computes before it tries the drivers, and
  the assignment of \<open>heu->ts\<close>, \<open>heu->morphism\<close> and \<open>tsstr\<close> that each of its three loops
  makes for the driver at hand.
\<close>

record morphed =
  morphts :: tileset
  zmorphts :: tileset
  morph :: nat
  zmorph :: nat
  morphtsstr :: string
  zmorphtsstr :: string

definition morph_tileset :: "'b env \<Rightarrow> tileset \<Rightarrow> 32 word \<Rightarrow> morphed" where
  "morph_tileset env tset flags =
     (let (mts, zmts, m, zm) =
            (if flags AND HEU_NOMORPH \<noteq> 0 then (tset, tset, 0, 0)
             else (let m = canonical_automorphism env tset;
                       zm = canonical_automorphism env (tileset_add tset ZERO_TILE)
                   in (tileset_morph env tset m, tileset_morph env tset zm, m, zm)))
      in \<lparr>morphts = mts, zmorphts = zmts, morph = m, zmorph = zm,
          morphtsstr = tileset_list_string env mts, zmorphtsstr = tileset_list_string env zmts\<rparr>)"

definition call_driver :: "'b env \<Rightarrow> 'b heuristic \<Rightarrow> string option \<Rightarrow> morphed
    \<Rightarrow> (string \<times> 'b heu_driver \<times> 32 word) \<Rightarrow> 32 word \<Rightarrow> 'b heuristic \<times> 'b drv_result" where
  "call_driver env heu heudir mo d flags =
     (case d of (typestr_d, drvfun, flags_d) \<Rightarrow>
        (let (heu', tsstr) =
               (if flags_d AND HEU_ZEROTILE \<noteq> 0
                then (heu\<lparr>heu_ts := zmorphts mo, morphism := zmorph mo\<rparr>, zmorphtsstr mo)
                else (heu\<lparr>heu_ts := morphts mo, morphism := morph mo\<rparr>, morphtsstr mo))
         in (heu', drvfun env heu' heudir (heu_ts heu') tsstr flags)))"

text \<open>
  The first two loops of \<open>heu_open\<close> ("is there an exact match?", "is there a similar
  match?") differ only in which entries they skip: those flagged \<open>HEU_SIMILAR\<close> in the
  first, those not flagged in the second (\<open>similar\<close>).  The loop returns \<open>Inr (Inr heu')\<close>,
  the populated \<open>heu\<close>, when a driver succeeded (\<open>goto success\<close>), and otherwise
  \<open>Inr (Inl (heu', type_match))\<close>: \<open>heu\<close> as the attempts left it and the value of
  \<open>type_match\<close>.  A fault of a driver ends the program.
\<close>

fun find_loop :: "'b env \<Rightarrow> string option \<Rightarrow> morphed \<Rightarrow> string \<Rightarrow> 32 word \<Rightarrow> bool
    \<Rightarrow> (string \<times> 'b heu_driver \<times> 32 word) list \<Rightarrow> 'b heuristic \<Rightarrow> bool
    \<Rightarrow> fault + (('b heuristic \<times> bool) + 'b heuristic)" where
  "find_loop env heudir mo typestr flags similar [] heu type_match = Inr (Inl (heu, type_match))"
| "find_loop env heudir mo typestr flags similar (d # ds) heu type_match =
     (if (snd (snd d) AND HEU_SIMILAR \<noteq> 0) \<noteq> similar \<or> typestr \<noteq> fst d
      then find_loop env heudir mo typestr flags similar ds heu type_match
      else (case call_driver env heu heudir mo d (flags AND NOT HEU_CREATE) of
              (heu', Inl f) \<Rightarrow> Inl f
            | (heu', Inr (Inr heu'')) \<Rightarrow> Inr (Inr heu'')
            | (heu', Inr (Inl e)) \<Rightarrow> find_loop env heudir mo typestr flags similar ds heu' True))"

text \<open>The third loop ("can we create a heuristic?") calls the first matching
  unflagged driver with \<open>HEU_CREATE\<close> and returns its result.\<close>

fun create_loop :: "'b env \<Rightarrow> string option \<Rightarrow> morphed \<Rightarrow> string \<Rightarrow> 32 word
    \<Rightarrow> (string \<times> 'b heu_driver \<times> 32 word) list \<Rightarrow> 'b heuristic
    \<Rightarrow> ('b heuristic \<times> 'b drv_result) option" where
  "create_loop env heudir mo typestr flags [] heu = None"
| "create_loop env heudir mo typestr flags (d # ds) heu =
     (if snd (snd d) AND HEU_SIMILAR \<noteq> 0 \<or> typestr \<noteq> fst d
      then create_loop env heudir mo typestr flags ds heu
      else Some (call_driver env heu heudir mo d flags))"

text \<open>The result of \<open>heu_open\<close> when it returns: the value returned, \<open>errno\<close> on return
  and \<open>heu\<close>.\<close>

record 'b heu_result =
  ret :: int
  errno_out :: errno
  heu_out :: "'b heuristic"

definition heu_open_fail :: "'b heuristic \<Rightarrow> bool \<Rightarrow> 'b heu_result" where
  "heu_open_fail heu type_match =
     (if type_match then \<lparr>ret = - 1, errno_out = ENOENT, heu_out = heu\<rparr>
      else \<lparr>ret = - 1, errno_out = EINVAL, heu_out = heu\<rparr>)"

definition heu_open_create :: "'b env \<Rightarrow> string option \<Rightarrow> morphed \<Rightarrow> string \<Rightarrow> 32 word
    \<Rightarrow> errno \<Rightarrow> 'b heuristic \<Rightarrow> bool \<Rightarrow> fault + 'b heu_result" where
  "heu_open_create env heudir mo typestr flags saved_errno heu type_match =
     (if flags AND HEU_CREATE \<noteq> 0
      then (case create_loop env heudir mo typestr flags drivers heu of
              Some (heu', Inl f) \<Rightarrow> Inl f
            | Some (heu', Inr (Inr heu'')) \<Rightarrow>
                Inr \<lparr>ret = 0, errno_out = saved_errno, heu_out = heu''\<rparr>
            | Some (heu', Inr (Inl e)) \<Rightarrow> Inr \<lparr>ret = - 1, errno_out = e, heu_out = heu'\<rparr>
            | None \<Rightarrow> Inr (heu_open_fail heu type_match))
      else Inr (heu_open_fail heu type_match))"

definition heu_open :: "'b env \<Rightarrow> errno \<Rightarrow> 'b heuristic \<Rightarrow> string option \<Rightarrow> tileset \<Rightarrow> string
    \<Rightarrow> 32 word \<Rightarrow> fault + 'b heu_result" where
  "heu_open env saved_errno heu heudir tset typestr flags =
     (let heu0 = heu\<lparr>derived := 0\<rparr>;
          mo = morph_tileset env (tileset_remove tset ZERO_TILE) flags
      in case find_loop env heudir mo typestr flags False drivers heu0 False of
           Inl f \<Rightarrow> Inl f
         | Inr (Inr heu') \<Rightarrow> Inr \<lparr>ret = 0, errno_out = saved_errno, heu_out = heu'\<rparr>
         | Inr (Inl (heu1, type_match)) \<Rightarrow>
             if flags AND HEU_SIMILAR \<noteq> 0
             then (case find_loop env heudir mo typestr flags True drivers heu1 type_match of
                     Inl f \<Rightarrow> Inl f
                   | Inr (Inr heu') \<Rightarrow> Inr \<lparr>ret = 0, errno_out = saved_errno, heu_out = heu'\<rparr>
                   | Inr (Inl (heu2, type_match')) \<Rightarrow>
                       heu_open_create env heudir mo typestr flags saved_errno heu2 type_match')
             else heu_open_create env heudir mo typestr flags saved_errno heu1 type_match)"

subsection \<open>Opening without \<open>HEU_CREATE\<close>\<close>

lemma flags_without_create: "(flags AND NOT HEU_CREATE) AND HEU_CREATE = 0" for flags :: "32 word"
  by (simp add: and.assoc)

lemma common_pdb_driver_no_file:
  assumes "flags AND HEU_CREATE = 0" and "\<forall>path. isl (open_rdonly env path)"
  shows "\<exists>e. common_pdb_driver env heu heudir tset tsstr flags suffix identify = Inr (Inl e)"
proof (cases heudir)
  case None
  then show ?thesis using assms(1) by (simp add: common_pdb_driver_def)
next
  case (Some dir)
  from assms(2) obtain e where "open_rdonly env (pathbuf_of dir tsstr suffix) = Inl e"
    by (metis isl_def)
  with Some assms(1) show ?thesis by (simp add: common_pdb_driver_def)
qed

lemma common_bitpdb_driver_no_file:
  assumes "flags AND HEU_CREATE = 0" and "\<forall>path. isl (fopen_rb env path)"
  shows "\<exists>e. common_bitpdb_driver env heu heudir tset tsstr flags suffix load_func store_func
      = Inr (Inl e)"
proof (cases heudir)
  case None
  then show ?thesis using assms(1) by (simp add: common_bitpdb_driver_def)
next
  case (Some dir)
  from assms(2) obtain e where "fopen_rb env (pathbuf_of dir tsstr suffix) = Inl e"
    by (metis isl_def)
  with Some assms(1) show ?thesis by (simp add: common_bitpdb_driver_def)
qed

text \<open>A driver that finds no file: called without \<open>HEU_CREATE\<close>, it returns \<open>-1\<close>.\<close>

definition fails_without_create :: "'b env \<Rightarrow> 'b heu_driver \<Rightarrow> bool" where
  "fails_without_create env drvfun \<longleftrightarrow>
     (\<forall>heu heudir tset tsstr flags.
        flags AND HEU_CREATE = 0 \<longrightarrow> (\<exists>e. drvfun env heu heudir tset tsstr flags = Inr (Inl e)))"

lemma drivers_fail_without_create:
  assumes "\<forall>path. isl (open_rdonly env path) \<and> isl (fopen_rb env path)"
  shows "\<forall>d \<in> set drivers. fails_without_create env (fst (snd d))"
proof -
  have o: "\<forall>path. isl (open_rdonly env path)" and f: "\<forall>path. isl (fopen_rb env path)"
    using assms by simp_all
  have "fails_without_create env pdb_driver" "fails_without_create env ipdb_driver"
    "fails_without_create env zpdb_driver"
    by (simp_all add: fails_without_create_def pdb_driver_def ipdb_driver_def zpdb_driver_def
        Let_def common_pdb_driver_no_file [OF _ o])
  moreover have "fails_without_create env bitpdb_driver" "fails_without_create env zbitpdb_driver"
    "fails_without_create env bitpdb_zstd_driver" "fails_without_create env zbitpdb_zstd_driver"
    by (simp_all add: fails_without_create_def bitpdb_driver_def zbitpdb_driver_def
        bitpdb_zstd_driver_def zbitpdb_zstd_driver_def Let_def common_bitpdb_driver_no_file [OF _ f])
  ultimately show ?thesis by (simp add: drivers_def)
qed

text \<open>Before it calls a driver, \<open>heu_open\<close> assigns \<open>heu->ts\<close> and \<open>heu->morphism\<close>; a
  driver that fails leaves \<open>heu\<close> as it is.\<close>

definition assigned :: "'b heuristic \<Rightarrow> 'b heuristic \<Rightarrow> bool" where
  "assigned heu heu' \<longleftrightarrow> (\<exists>t m. heu' = heu\<lparr>heu_ts := t, morphism := m\<rparr>)"

lemma assigned_refl: "assigned heu heu"
proof -
  have "heu = heu\<lparr>heu_ts := heu_ts heu, morphism := morphism heu\<rparr>" by simp
  then show ?thesis unfolding assigned_def by blast
qed

lemma assigned_trans: "assigned h1 h2 \<Longrightarrow> assigned h2 h3 \<Longrightarrow> assigned h1 h3"
proof -
  assume "assigned h1 h2" "assigned h2 h3"
  then obtain t m t' m' where "h2 = h1\<lparr>heu_ts := t, morphism := m\<rparr>"
    "h3 = h2\<lparr>heu_ts := t', morphism := m'\<rparr>"
    unfolding assigned_def by blast
  then have "h3 = h1\<lparr>heu_ts := t', morphism := m'\<rparr>" by simp
  then show ?thesis unfolding assigned_def by blast
qed

lemma call_driver_fails:
  assumes "fails_without_create env (fst (snd d))"
  shows "\<exists>heu' e. call_driver env heu heudir mo d (flags AND NOT HEU_CREATE) = (heu', Inr (Inl e))
      \<and> assigned heu heu'"
proof -
  obtain t f fl where d: "d = (t, f, fl)" by (cases d)
  with assms have c: "\<And>h s ts. \<exists>e. f env h heudir ts s (flags AND NOT HEU_CREATE) = Inr (Inl e)"
    by (simp add: fails_without_create_def flags_without_create)
  show ?thesis
  proof (cases "fl AND HEU_ZEROTILE \<noteq> 0")
    case True
    from c [of "heu\<lparr>heu_ts := zmorphts mo, morphism := zmorph mo\<rparr>" "zmorphts mo" "zmorphtsstr mo"]
    obtain e where "f env (heu\<lparr>heu_ts := zmorphts mo, morphism := zmorph mo\<rparr>) heudir (zmorphts mo)
        (zmorphtsstr mo) (flags AND NOT HEU_CREATE) = Inr (Inl e)" by blast
    with True show ?thesis by (auto simp: d call_driver_def Let_def assigned_def)
  next
    case False
    from c [of "heu\<lparr>heu_ts := morphts mo, morphism := morph mo\<rparr>" "morphts mo" "morphtsstr mo"]
    obtain e where "f env (heu\<lparr>heu_ts := morphts mo, morphism := morph mo\<rparr>) heudir (morphts mo)
        (morphtsstr mo) (flags AND NOT HEU_CREATE) = Inr (Inl e)" by blast
    with False show ?thesis by (auto simp: d call_driver_def Let_def assigned_def)
  qed
qed

lemma find_loop_all_fail:
  assumes "\<forall>d \<in> set ds. fails_without_create env (fst (snd d))"
  shows "\<exists>heu'. find_loop env heudir mo typestr flags similar ds heu type_match =
      Inr (Inl (heu', type_match \<or>
             (\<exists>d \<in> set ds. (snd (snd d) AND HEU_SIMILAR \<noteq> 0) = similar \<and> typestr = fst d)))
      \<and> assigned heu heu'"
  using assms
proof (induction ds arbitrary: heu type_match)
  case Nil
  then show ?case by (simp add: assigned_refl)
next
  case (Cons d ds)
  show ?case
  proof (cases "(snd (snd d) AND HEU_SIMILAR \<noteq> 0) \<noteq> similar \<or> typestr \<noteq> fst d")
    case True
    with Cons.IH [of heu type_match] Cons.prems show ?thesis by auto
  next
    case False
    from Cons.prems have "fails_without_create env (fst (snd d))" by simp
    from call_driver_fails [OF this]
    obtain heu' e
      where c: "call_driver env heu heudir mo d (flags AND NOT HEU_CREATE) = (heu', Inr (Inl e))"
        and a: "assigned heu heu'"
      by blast
    from Cons.IH [of heu' True] Cons.prems
    obtain heu'' where l: "find_loop env heudir mo typestr flags similar ds heu' True
        = Inr (Inl (heu'', True))" and a': "assigned heu' heu''"
      by auto
    from False c l have "find_loop env heudir mo typestr flags similar (d # ds) heu type_match
        = Inr (Inl (heu'', True))" by simp
    moreover from False have "type_match \<or>
        (\<exists>d' \<in> set (d # ds). (snd (snd d') AND HEU_SIMILAR \<noteq> 0) = similar \<and> typestr = fst d')"
      by auto
    ultimately show ?thesis using assigned_trans [OF a a'] by auto
  qed
qed

lemma find_loop_no_match:
  assumes "\<forall>d \<in> set ds. typestr \<noteq> fst d"
  shows "find_loop env heudir mo typestr flags similar ds heu type_match
      = Inr (Inl (heu, type_match))"
  using assms by (induction ds) simp_all

lemma create_loop_no_match:
  assumes "\<forall>d \<in> set ds. typestr \<noteq> fst d"
  shows "create_loop env heudir mo typestr flags ds heu = None"
  using assms by (induction ds) simp_all

lemma drivers_exact_entry:
  "\<forall>d \<in> set (drivers :: (string \<times> 'b heu_driver \<times> 32 word) list).
     \<exists>d' \<in> set (drivers :: (string \<times> 'b heu_driver \<times> 32 word) list).
       fst d' = fst d \<and> snd (snd d') AND HEU_SIMILAR = 0"
  by (simp add: drivers_def HEU_SIMILAR_def HEU_ZEROTILE_def)

lemma heu_open_create_without_flag:
  "flags AND HEU_CREATE = 0 \<Longrightarrow>
   heu_open_create env heudir mo typestr flags saved_errno heu type_match
     = Inr (heu_open_fail heu type_match)"
  by (simp add: heu_open_create_def)

lemma heu_open_fail_simps:
  "ret (heu_open_fail heu type_match) = - 1"
  "errno_out (heu_open_fail heu type_match) = (if type_match then ENOENT else EINVAL)"
  by (simp_all add: heu_open_fail_def)

text \<open>
  Claim C8.  For a call of \<open>heu_open\<close> without \<open>HEU_CREATE\<close>: when \<open>typestr\<close> is the type
  string of no entry of the driver table, the call returns \<open>-1\<close> with \<open>errno = EINVAL\<close>;
  when it is the type string of some entry and no file can be opened for reading
  (neither by \<open>open\<close> nor by \<open>fopen\<close>, so neither for the exact drivers nor for those
  flagged \<open>HEU_SIMILAR\<close>), the call returns \<open>-1\<close> with \<open>errno = ENOENT\<close>.
\<close>

theorem heu_open_unknown_type_or_not_found:
  fixes env :: "'b env"
  assumes "flags AND HEU_CREATE = 0"
  shows "((\<forall>d \<in> set (drivers :: (string \<times> 'b heu_driver \<times> 32 word) list). typestr \<noteq> fst d) \<longrightarrow>
            (\<exists>r. heu_open env saved_errno heu heudir tset typestr flags = Inr r
               \<and> ret r = - 1 \<and> errno_out r = EINVAL))
    \<and> ((\<exists>d \<in> set (drivers :: (string \<times> 'b heu_driver \<times> 32 word) list). typestr = fst d)
         \<and> (\<forall>path. isl (open_rdonly env path) \<and> isl (fopen_rb env path)) \<longrightarrow>
            (\<exists>r. heu_open env saved_errno heu heudir tset typestr flags = Inr r
               \<and> ret r = - 1 \<and> errno_out r = ENOENT))"
proof (rule conjI; rule impI)
  let ?D = "drivers :: (string \<times> 'b heu_driver \<times> 32 word) list"
  assume no: "\<forall>d \<in> set ?D. typestr \<noteq> fst d"
  have "\<exists>h. heu_open env saved_errno heu heudir tset typestr flags = Inr (heu_open_fail h False)"
    using assms by (auto simp: heu_open_def Let_def find_loop_no_match [OF no]
        heu_open_create_without_flag)
  then show "\<exists>r. heu_open env saved_errno heu heudir tset typestr flags = Inr r
      \<and> ret r = - 1 \<and> errno_out r = EINVAL"
    by (auto simp: heu_open_fail_simps)
next
  let ?D = "drivers :: (string \<times> 'b heu_driver \<times> 32 word) list"
  let ?mo = "morph_tileset env (tileset_remove tset ZERO_TILE) flags"
  assume a: "(\<exists>d \<in> set ?D. typestr = fst d)
         \<and> (\<forall>path. isl (open_rdonly env path) \<and> isl (fopen_rb env path))"
  then have fail: "\<forall>d \<in> set ?D. fails_without_create env (fst (snd d))"
    by (intro drivers_fail_without_create) simp
  from a drivers_exact_entry [where 'b = 'b]
  have exact: "\<exists>d \<in> set ?D. (snd (snd d) AND HEU_SIMILAR \<noteq> 0) = False \<and> typestr = fst d"
    by (metis (no_types, lifting))
  from find_loop_all_fail [OF fail, of heudir ?mo typestr flags False "heu\<lparr>derived := 0\<rparr>" False] exact
  obtain heu1 where l1: "find_loop env heudir ?mo typestr flags False ?D (heu\<lparr>derived := 0\<rparr>) False
      = Inr (Inl (heu1, True))"
    by auto
  from find_loop_all_fail [OF fail, of heudir ?mo typestr flags True heu1 True]
  obtain heu2 where l2: "find_loop env heudir ?mo typestr flags True ?D heu1 True
      = Inr (Inl (heu2, True))"
    by auto
  have "\<exists>h. heu_open env saved_errno heu heudir tset typestr flags = Inr (heu_open_fail h True)"
    using assms by (auto simp: heu_open_def Let_def l1 l2 heu_open_create_without_flag)
  then show "\<exists>r. heu_open env saved_errno heu heudir tset typestr flags = Inr r
      \<and> ret r = - 1 \<and> errno_out r = ENOENT"
    by (auto simp: heu_open_fail_simps)
qed

text \<open>An environment for the examples: no file can be opened, for reading or for
  writing; allocation, generation and conversion succeed.\<close>

definition no_files_env :: "unit env" where
  "no_files_env =
     \<lparr>canonical_automorphism = (\<lambda>t. 0), tileset_morph = (\<lambda>t m. t),
      tileset_list_string = (\<lambda>t. ''01''), PATH_MAX = 4096,
      open_rdonly = (\<lambda>path. Inl ENOENT), fopen_rb = (\<lambda>path. Inl ENOENT),
      fopen_wb = (\<lambda>path. Inl (EOTHER 13)),
      pdb_mmap = (\<lambda>t fd. Inl (EOTHER 9)),
      pdb_allocate = (\<lambda>t. Inr \<lparr>aux = \<lparr>ts = t, n_tile = 0, n_maprank = 0, n_perm = 0,
                                      aux_tiles = [], idxt = None\<rparr>,
                              mapped = False, tables = []\<rparr>),
      pdb_generate = (\<lambda>pdb. pdb\<lparr>tables := [[0]]\<rparr>), pdb_identify = (\<lambda>pdb. pdb),
      pdb_store = (\<lambda>f pdb. Some (EOTHER 5)),
      bitpdb_from_pdb = (\<lambda>pdb. Inr ()),
      bitpdb_load = (\<lambda>t f. Inl (EOTHER 5)), bitpdb_load_compressed = (\<lambda>t f. Inl (EOTHER 5)),
      bitpdb_store = (\<lambda>f b. Some (EOTHER 5)), bitpdb_store_compressed = (\<lambda>f b. Some (EOTHER 5))\<rparr>"

definition blank_heuristic :: "unit heuristic" where
  "blank_heuristic =
     \<lparr>provider = BitpdbProvider (), hval = pdb_hval_wrapper, hdiff = pdb_hval_wrapper,
      free = pdb_hval_wrapper, heu_ts = 0, morphism = 0, derived = 1\<rparr>"

theorem heu_open_unknown_type_or_not_found_witness:
  "(0 :: 32 word) AND HEU_CREATE = 0
   \<and> (\<exists>r. heu_open no_files_env (EOTHER 0) blank_heuristic (Some ''/tmp'') 6 ''qdb'' 0 = Inr r
        \<and> ret r = - 1 \<and> errno_out r = EINVAL)
   \<and> (\<exists>r. heu_open no_files_env (EOTHER 0) blank_heuristic (Some ''/tmp'') 6 ''zpdb'' 0 = Inr r
        \<and> ret r = - 1 \<and> errno_out r = ENOENT)"
proof -
  let ?D = "drivers :: (string \<times> unit heu_driver \<times> 32 word) list"
  have f: "(0 :: 32 word) AND HEU_CREATE = 0" by simp
  have u: "\<forall>d \<in> set ?D. ''qdb'' \<noteq> fst d" by (simp add: drivers_def)
  have k: "\<exists>d \<in> set ?D. ''zpdb'' = fst d" by (simp add: drivers_def)
  have n: "\<forall>path. isl (open_rdonly no_files_env path) \<and> isl (fopen_rb no_files_env path)"
    by (simp add: no_files_env_def)
  from heu_open_unknown_type_or_not_found [OF f, of "''qdb''" no_files_env] u
  have a: "\<exists>r. heu_open no_files_env (EOTHER 0) blank_heuristic (Some ''/tmp'') 6 ''qdb'' 0 = Inr r
        \<and> ret r = - 1 \<and> errno_out r = EINVAL"
    by blast
  from heu_open_unknown_type_or_not_found [OF f, of "''zpdb''" no_files_env] k n
  have b: "\<exists>r. heu_open no_files_env (EOTHER 0) blank_heuristic (Some ''/tmp'') 6 ''zpdb'' 0 = Inr r
        \<and> ret r = - 1 \<and> errno_out r = ENOENT"
    by blast
  from f a b show ?thesis by (intro conjI)
qed

subsection \<open>Creating a heuristic that cannot be written to disk\<close>

text \<open>
  What a call with \<open>HEU_CREATE\<close> is to leave in \<open>heu\<close> for each type string of the driver
  table.  The types \<open>zpdb\<close>, \<open>zbpdb\<close> and \<open>zbpdb.zst\<close> account for the zero tile: their tile
  set and morphism are those of the canonical automorphism of the tile set with the zero
  tile, and the zero tile is a member of the tile set of the generated PDB.  An
  identified PDB (\<open>ipdb\<close>) is generated for the tile set with the zero tile and then
  identified.  The types \<open>bpdb\<close>, \<open>zbpdb\<close>, \<open>bpdb.zst\<close> and \<open>zbpdb.zst\<close> are bitpdbs,
  converted from the generated PDB.
\<close>

definition zero_aware :: "string \<Rightarrow> bool" where
  "zero_aware typestr \<longleftrightarrow> typestr \<in> {''zpdb'', ''zbpdb'', ''zbpdb.zst''}"

definition bit_packed :: "string \<Rightarrow> bool" where
  "bit_packed typestr \<longleftrightarrow> typestr \<in> {''bpdb'', ''zbpdb'', ''bpdb.zst'', ''zbpdb.zst''}"

definition created_tileset :: "morphed \<Rightarrow> string \<Rightarrow> tileset" where
  "created_tileset mo typestr =
     (if zero_aware typestr then tileset_add (zmorphts mo) ZERO_TILE
      else if typestr = ''ipdb'' then tileset_add (morphts mo) ZERO_TILE
      else morphts mo)"

definition created_provider :: "'b env \<Rightarrow> string \<Rightarrow> patterndb \<Rightarrow> 'b \<Rightarrow> 'b provider" where
  "created_provider env typestr pdb0 b =
     (if bit_packed typestr then BitpdbProvider b
      else if typestr = ''ipdb'' then PdbProvider (pdb_identify env (pdb_generate env pdb0))
      else PdbProvider (pdb_generate env pdb0))"

definition created_heuristic ::
  "'b env \<Rightarrow> 'b heuristic \<Rightarrow> morphed \<Rightarrow> string \<Rightarrow> patterndb \<Rightarrow> 'b \<Rightarrow> 'b heuristic" where
  "created_heuristic env heu mo typestr pdb0 b =
     heu\<lparr>provider := created_provider env typestr pdb0 b,
         hval := (if bit_packed typestr then bitpdb_hval_wrapper else pdb_hval_wrapper),
         hdiff := (if bit_packed typestr then bitpdb_hdiff_wrapper else pdb_hdiff_wrapper),
         free := (if bit_packed typestr then bitpdb_free_wrapper else pdb_free_wrapper),
         heu_ts := (if zero_aware typestr then zmorphts mo else morphts mo),
         morphism := (if zero_aware typestr then zmorph mo else morph mo)\<rparr>"

text \<open>The generated path names fit into \<open>PATH_MAX\<close> bytes.\<close>

definition paths_fit :: "'b env \<Rightarrow> string option \<Rightarrow> bool" where
  "paths_fit env heudir \<longleftrightarrow>
     (\<forall>dir t suffix. heudir = Some dir \<longrightarrow> suffix \<in> {''pdb'', ''ipdb'', ''bpdb'', ''bpdb.zst''} \<longrightarrow>
        length (pathbuf_of dir (tileset_list_string env t) suffix) < PATH_MAX env)"

text \<open>Nothing can be written: whenever a destination can be opened for writing, every
  store function fails on it.\<close>

definition cannot_persist :: "'b env \<Rightarrow> bool" where
  "cannot_persist env \<longleftrightarrow>
     (\<forall>path f. fopen_wb env path = Inr f \<longrightarrow>
        (\<forall>pdb. pdb_store env f pdb \<noteq> None) \<and> (\<forall>b. bitpdb_store env f b \<noteq> None)
        \<and> (\<forall>b. bitpdb_store_compressed env f b \<noteq> None))"

lemma pdb_create_cannot_persist:
  assumes "pdb_allocate env (if identify then tileset_add tset ZERO_TILE else tset) = Inr pdb0"
    and "cannot_persist env"
  shows "pdb_create env heu heudir tset tsstr suffix identify =
    pdb_success heu (if identify then pdb_identify env (pdb_generate env pdb0)
                     else pdb_generate env pdb0)"
proof (cases heudir)
  case None
  with assms(1) show ?thesis by (simp add: pdb_create_def Let_def)
next
  case (Some dir)
  show ?thesis
  proof (cases "fopen_wb env (pathbuf_of dir tsstr suffix)")
    case (Inl e)
    with Some assms(1) show ?thesis by (simp add: pdb_create_def Let_def)
  next
    case (Inr f)
    with assms(2) have "pdb_store env f (if identify then pdb_identify env (pdb_generate env pdb0)
                     else pdb_generate env pdb0) \<noteq> None"
      unfolding cannot_persist_def by blast
    then obtain e where "pdb_store env f (if identify then pdb_identify env (pdb_generate env pdb0)
                     else pdb_generate env pdb0) = Some e" by blast
    with Some Inr assms(1) show ?thesis by (simp add: pdb_create_def Let_def)
  qed
qed

lemma bitpdb_create_in_memory:
  assumes "pdb_allocate env tset = Inr pdb0"
    and "bitpdb_from_pdb env (pdb_generate env pdb0) = Inr b"
  shows "bitpdb_create env heu heudir tset tsstr suffix store_func = bitpdb_success heu b"
  using assms
  by (simp add: bitpdb_create_def Let_def split: option.splits sum.splits)

text \<open>
  The conversion to a bitpdb is the one step of the creation whose failure the drivers
  do not survive when there is no open destination: \<open>common_bitpdb_driver\<close> then passes
  the null \<open>pdbfile\<close> to \<open>fclose\<close>.
\<close>

lemma bitpdb_create_conversion_failure:
  assumes "pdb_allocate env tset = Inr pdb0"
    and "bitpdb_from_pdb env (pdb_generate env pdb0) = Inl e"
  shows "bitpdb_create env heu None tset tsstr suffix store_func = Inl NullPointer"
  using assms by (simp add: bitpdb_create_def Let_def)

lemma common_pdb_driver_creates:
  assumes nofile: "\<forall>path. isl (open_rdonly env path)"
    and fits: "paths_fit env heudir"
    and persist: "cannot_persist env"
    and create: "flags AND HEU_CREATE \<noteq> 0"
    and suffix: "suffix \<in> {''pdb'', ''ipdb'', ''bpdb'', ''bpdb.zst''}"
    and alloc: "pdb_allocate env (if identify then tileset_add tset ZERO_TILE else tset) = Inr pdb0"
  shows "common_pdb_driver env heu heudir tset (tileset_list_string env t) flags suffix identify
      = pdb_success heu (if identify then pdb_identify env (pdb_generate env pdb0)
                         else pdb_generate env pdb0)"
proof -
  have c: "common_pdb_driver env heu heudir tset (tileset_list_string env t) flags suffix identify
      = pdb_create env heu heudir tset (tileset_list_string env t) suffix identify"
  proof (cases heudir)
    case None
    with create show ?thesis by (simp add: common_pdb_driver_def)
  next
    case (Some dir)
    from fits Some suffix
    have "length (pathbuf_of dir (tileset_list_string env t) suffix) < PATH_MAX env"
      unfolding paths_fit_def by blast
    moreover from nofile obtain e
      where "open_rdonly env (pathbuf_of dir (tileset_list_string env t) suffix) = Inl e"
      by (metis isl_def)
    ultimately show ?thesis using Some create by (simp add: common_pdb_driver_def)
  qed
  show ?thesis unfolding c by (rule pdb_create_cannot_persist [OF alloc persist])
qed

lemma common_bitpdb_driver_creates:
  assumes nofile: "\<forall>path. isl (fopen_rb env path)"
    and fits: "paths_fit env heudir"
    and create: "flags AND HEU_CREATE \<noteq> 0"
    and suffix: "suffix \<in> {''pdb'', ''ipdb'', ''bpdb'', ''bpdb.zst''}"
    and alloc: "pdb_allocate env tset = Inr pdb0"
    and conv: "bitpdb_from_pdb env (pdb_generate env pdb0) = Inr b"
  shows "common_bitpdb_driver env heu heudir tset (tileset_list_string env t) flags suffix
          load_func store_func = bitpdb_success heu b"
proof -
  have c: "common_bitpdb_driver env heu heudir tset (tileset_list_string env t) flags suffix
          load_func store_func
      = bitpdb_create env heu heudir tset (tileset_list_string env t) suffix store_func"
  proof (cases heudir)
    case None
    with create show ?thesis by (simp add: common_bitpdb_driver_def)
  next
    case (Some dir)
    from fits Some suffix
    have "length (pathbuf_of dir (tileset_list_string env t) suffix) < PATH_MAX env"
      unfolding paths_fit_def by blast
    moreover from nofile obtain e
      where "fopen_rb env (pathbuf_of dir (tileset_list_string env t) suffix) = Inl e"
      by (metis isl_def)
    ultimately show ?thesis using Some create by (simp add: common_bitpdb_driver_def)
  qed
  show ?thesis unfolding c by (rule bitpdb_create_in_memory [OF alloc conv])
qed

lemma morph_tileset_strings:
  "morphtsstr (morph_tileset env tset flags) = tileset_list_string env (morphts (morph_tileset env tset flags))"
  "zmorphtsstr (morph_tileset env tset flags) = tileset_list_string env (zmorphts (morph_tileset env tset flags))"
  by (simp_all add: morph_tileset_def Let_def split: prod.splits)

lemma drivers_typestrs:
  "map fst (drivers :: (string \<times> 'b heu_driver \<times> 32 word) list)
     = [''pdb'', ''ipdb'', ''zpdb'', ''bpdb'', ''zbpdb'', ''bpdb.zst'', ''zbpdb.zst'',
        ''pdb'', ''zpdb'', ''bpdb.zst'', ''zbpdb.zst'', ''bpdb'', ''zbpdb'', ''bpdb.zst'',
        ''zbpdb.zst'', ''pdb'', ''zpdb'', ''bpdb'', ''zbpdb'']"
  by (simp add: drivers_def)

text \<open>The third loop of \<open>heu_open\<close> for each of the seven type strings.\<close>

lemma create_loop_creates:
  fixes env :: "'b env"
  assumes create: "flags AND HEU_CREATE \<noteq> 0"
    and known: "\<exists>d \<in> set (drivers :: (string \<times> 'b heu_driver \<times> 32 word) list). typestr = fst d"
    and nofile: "\<forall>path. isl (open_rdonly env path) \<and> isl (fopen_rb env path)"
    and fits: "paths_fit env heudir"
    and mo: "mo = morph_tileset env tset flags'"
    and alloc: "pdb_allocate env (created_tileset mo typestr) = Inr pdb0"
    and conv: "bit_packed typestr \<longrightarrow> bitpdb_from_pdb env (pdb_generate env pdb0) = Inr b"
    and persist: "cannot_persist env"
  shows "\<exists>h'. create_loop env heudir mo typestr flags drivers h
      = Some (h', Inr (Inr (created_heuristic env h mo typestr pdb0 b)))"
proof -
  have o: "\<forall>path. isl (open_rdonly env path)" and f: "\<forall>path. isl (fopen_rb env path)"
    using nofile by simp_all
  note p = common_pdb_driver_creates [OF o fits persist create]
  note q = common_bitpdb_driver_creates [OF f fits create]
  note s = morph_tileset_strings [of env tset flags', folded mo]
  from known have "typestr \<in> set (map fst (drivers :: (string \<times> 'b heu_driver \<times> 32 word) list))"
    by auto
  then have "typestr \<in> {''pdb'', ''ipdb'', ''zpdb'', ''bpdb'', ''zbpdb'', ''bpdb.zst'', ''zbpdb.zst''}"
    unfolding drivers_typestrs by (simp only: set_simps insert_iff empty_iff) (elim disjE, simp_all)
  then consider "typestr = ''pdb''" | "typestr = ''ipdb''" | "typestr = ''zpdb''"
    | "typestr = ''bpdb''" | "typestr = ''zbpdb''" | "typestr = ''bpdb.zst''"
    | "typestr = ''zbpdb.zst''"
    by (simp only: insert_iff empty_iff) (elim disjE, simp_all)
  then show ?thesis
  proof cases
    case 1
    with alloc have a: "pdb_allocate env (if False then tileset_add (morphts mo) ZERO_TILE
        else morphts mo) = Inr pdb0"
      by (simp add: created_tileset_def zero_aware_def)
    show ?thesis
      by (simp add: 1 drivers_def call_driver_def Let_def pdb_driver_def s
          p [OF _ a] pdb_success_def created_heuristic_def created_provider_def
          bit_packed_def zero_aware_def HEU_SIMILAR_def HEU_ZEROTILE_def)
  next
    case 2
    with alloc have a: "pdb_allocate env (if True then tileset_add (morphts mo) ZERO_TILE
        else morphts mo) = Inr pdb0"
      by (simp add: created_tileset_def zero_aware_def)
    show ?thesis
      by (simp add: 2 drivers_def call_driver_def Let_def ipdb_driver_def s
          p [OF _ a] pdb_success_def created_heuristic_def created_provider_def
          bit_packed_def zero_aware_def HEU_SIMILAR_def HEU_ZEROTILE_def)
  next
    case 3
    with alloc have a: "pdb_allocate env (if False then tileset_add (tileset_add (zmorphts mo) ZERO_TILE) ZERO_TILE
        else tileset_add (zmorphts mo) ZERO_TILE) = Inr pdb0"
      by (simp add: created_tileset_def zero_aware_def)
    show ?thesis
      by (simp add: 3 drivers_def call_driver_def Let_def zpdb_driver_def s
          p [OF _ a] pdb_success_def created_heuristic_def created_provider_def
          bit_packed_def zero_aware_def HEU_SIMILAR_def HEU_ZEROTILE_def)
  next
    case 4
    with alloc conv have a: "pdb_allocate env (morphts mo) = Inr pdb0"
      and c: "bitpdb_from_pdb env (pdb_generate env pdb0) = Inr b"
      by (simp_all add: created_tileset_def zero_aware_def bit_packed_def)
    show ?thesis
      by (simp add: 4 drivers_def call_driver_def Let_def bitpdb_driver_def s
          q [OF _ a c] bitpdb_success_def created_heuristic_def created_provider_def
          bit_packed_def zero_aware_def HEU_SIMILAR_def HEU_ZEROTILE_def)
  next
    case 5
    with alloc conv have a: "pdb_allocate env (tileset_add (zmorphts mo) ZERO_TILE) = Inr pdb0"
      and c: "bitpdb_from_pdb env (pdb_generate env pdb0) = Inr b"
      by (simp_all add: created_tileset_def zero_aware_def bit_packed_def)
    show ?thesis
      by (simp add: 5 drivers_def call_driver_def Let_def zbitpdb_driver_def s
          q [OF _ a c] bitpdb_success_def created_heuristic_def created_provider_def
          bit_packed_def zero_aware_def HEU_SIMILAR_def HEU_ZEROTILE_def)
  next
    case 6
    with alloc conv have a: "pdb_allocate env (morphts mo) = Inr pdb0"
      and c: "bitpdb_from_pdb env (pdb_generate env pdb0) = Inr b"
      by (simp_all add: created_tileset_def zero_aware_def bit_packed_def)
    show ?thesis
      by (simp add: 6 drivers_def call_driver_def Let_def bitpdb_zstd_driver_def s
          q [OF _ a c] bitpdb_success_def created_heuristic_def created_provider_def
          bit_packed_def zero_aware_def HEU_SIMILAR_def HEU_ZEROTILE_def)
  next
    case 7
    with alloc conv have a: "pdb_allocate env (tileset_add (zmorphts mo) ZERO_TILE) = Inr pdb0"
      and c: "bitpdb_from_pdb env (pdb_generate env pdb0) = Inr b"
      by (simp_all add: created_tileset_def zero_aware_def bit_packed_def)
    show ?thesis
      by (simp add: 7 drivers_def call_driver_def Let_def zbitpdb_zstd_driver_def s
          q [OF _ a c] bitpdb_success_def created_heuristic_def created_provider_def
          bit_packed_def zero_aware_def HEU_SIMILAR_def HEU_ZEROTILE_def)
  qed
qed

lemma created_heuristic_assigned:
  assumes "assigned heu h"
  shows "created_heuristic env h mo typestr pdb0 b = created_heuristic env heu mo typestr pdb0 b"
proof -
  from assms obtain t m where "h = heu\<lparr>heu_ts := t, morphism := m\<rparr>"
    unfolding assigned_def by auto
  then show ?thesis by (simp add: created_heuristic_def)
qed

text \<open>
  Claim C9.  Let \<open>heu_open\<close> be called with \<open>HEU_CREATE\<close> for a type string of the driver
  table, where no file can be opened for reading (so the heuristic is created), the
  path names fit, the PDB for the type's tile set is allocated and, for a bitpdb, the
  conversion succeeds.  If every destination either cannot be opened for writing or
  cannot be stored to, the call returns 0, restores \<open>errno\<close>, and \<open>heu\<close> holds the heuristic
  of the requested type for the requested tile set: \<open>derived\<close> is 0, \<open>ts\<close> and \<open>morphism\<close>
  are those of the type, the provider is the PDB generated in memory for the type's
  tile set (identified for \<open>ipdb\<close>, converted for the bitpdb types), and the three
  functions are those of the provider.
\<close>

theorem heu_open_create_survives_write_failure:
  fixes env :: "'b env"
  assumes create: "flags AND HEU_CREATE \<noteq> 0"
    and known: "\<exists>d \<in> set (drivers :: (string \<times> 'b heu_driver \<times> 32 word) list). typestr = fst d"
    and nofile: "\<forall>path. isl (open_rdonly env path) \<and> isl (fopen_rb env path)"
    and fits: "paths_fit env heudir"
    and alloc: "pdb_allocate env
        (created_tileset (morph_tileset env (tileset_remove tset ZERO_TILE) flags) typestr)
        = Inr pdb0"
    and conv: "bit_packed typestr \<longrightarrow> bitpdb_from_pdb env (pdb_generate env pdb0) = Inr b"
    and persist: "cannot_persist env"
  shows "heu_open env saved_errno heu heudir tset typestr flags
    = Inr \<lparr>ret = 0, errno_out = saved_errno,
           heu_out = created_heuristic env (heu\<lparr>derived := 0\<rparr>)
             (morph_tileset env (tileset_remove tset ZERO_TILE) flags) typestr pdb0 b\<rparr>"
proof -
  let ?D = "drivers :: (string \<times> 'b heu_driver \<times> 32 word) list"
  let ?mo = "morph_tileset env (tileset_remove tset ZERO_TILE) flags"
  let ?heu0 = "heu\<lparr>derived := 0\<rparr>"
  have fail: "\<forall>d \<in> set ?D. fails_without_create env (fst (snd d))"
    by (rule drivers_fail_without_create [OF nofile])
  from find_loop_all_fail [OF fail, of heudir ?mo typestr flags False ?heu0 False]
  obtain heu1 tm1 where l1:
    "find_loop env heudir ?mo typestr flags False ?D ?heu0 False = Inr (Inl (heu1, tm1))"
    and a1: "assigned ?heu0 heu1"
    by blast
  from find_loop_all_fail [OF fail, of heudir ?mo typestr flags True heu1 tm1]
  obtain heu2 tm2 where l2:
    "find_loop env heudir ?mo typestr flags True ?D heu1 tm1 = Inr (Inl (heu2, tm2))"
    and a2: "assigned heu1 heu2"
    by blast
  have oc: "heu_open_create env heudir ?mo typestr flags saved_errno h tm
      = Inr \<lparr>ret = 0, errno_out = saved_errno,
             heu_out = created_heuristic env ?heu0 ?mo typestr pdb0 b\<rparr>"
    if "assigned ?heu0 h" for h tm
  proof -
    from create_loop_creates [OF create known nofile fits refl alloc conv persist, of h]
    obtain h' where "create_loop env heudir ?mo typestr flags ?D h
        = Some (h', Inr (Inr (created_heuristic env h ?mo typestr pdb0 b)))"
      by blast
    with create show ?thesis
      by (simp add: heu_open_create_def created_heuristic_assigned [OF that])
  qed
  show ?thesis
  proof (cases "flags AND HEU_SIMILAR \<noteq> 0")
    case True
    then have "heu_open env saved_errno heu heudir tset typestr flags
        = heu_open_create env heudir ?mo typestr flags saved_errno heu2 tm2"
      by (simp add: heu_open_def Let_def l1 l2)
    with oc [OF assigned_trans [OF a1 a2], of tm2] show ?thesis by simp
  next
    case False
    then have "heu_open env saved_errno heu heudir tset typestr flags
        = heu_open_create env heudir ?mo typestr flags saved_errno heu1 tm1"
      by (simp add: heu_open_def Let_def l1)
    with oc [OF a1, of tm1] show ?thesis by simp
  qed
qed

text \<open>
  Two examples.  In \<open>no_files_env\<close> the destination cannot be opened for writing; an
  identified PDB is asked for.  In \<open>store_fails_env\<close> the destination is opened and
  \<open>bitpdb_store\<close> fails on it; a bitpdb with the zero tile is asked for.
\<close>

definition store_fails_env :: "patterndb env" where
  "store_fails_env =
     \<lparr>canonical_automorphism = (\<lambda>t. if tileset_has t ZERO_TILE then 2 else 1),
      tileset_morph = (\<lambda>t m. t),
      tileset_list_string = (\<lambda>t. ''01''), PATH_MAX = 4096,
      open_rdonly = (\<lambda>path. Inl ENOENT), fopen_rb = (\<lambda>path. Inl ENOENT),
      fopen_wb = (\<lambda>path. Inr 3),
      pdb_mmap = (\<lambda>t fd. Inl (EOTHER 9)),
      pdb_allocate = (\<lambda>t. Inr \<lparr>aux = \<lparr>ts = t, n_tile = 0, n_maprank = 0, n_perm = 0,
                                      aux_tiles = [], idxt = None\<rparr>,
                              mapped = False, tables = []\<rparr>),
      pdb_generate = (\<lambda>pdb. pdb\<lparr>tables := [[0]]\<rparr>),
      pdb_identify = (\<lambda>pdb. pdb\<lparr>tables := [[1]]\<rparr>),
      pdb_store = (\<lambda>f pdb. Some (EOTHER 28)),
      bitpdb_from_pdb = (\<lambda>pdb. Inr pdb),
      bitpdb_load = (\<lambda>t f. Inl (EOTHER 5)), bitpdb_load_compressed = (\<lambda>t f. Inl (EOTHER 5)),
      bitpdb_store = (\<lambda>f b. Some (EOTHER 28)),
      bitpdb_store_compressed = (\<lambda>f b. Some (EOTHER 28))\<rparr>"

definition blank_pdb_heuristic :: "patterndb heuristic" where
  "blank_pdb_heuristic =
     \<lparr>provider = PdbProvider \<lparr>aux = \<lparr>ts = 0, n_tile = 0, n_maprank = 0, n_perm = 0,
                                      aux_tiles = [], idxt = None\<rparr>,
                              mapped = False, tables = []\<rparr>,
      hval = pdb_hval_wrapper, hdiff = pdb_hval_wrapper,
      free = pdb_hval_wrapper, heu_ts = 0, morphism = 0, derived = 1\<rparr>"

theorem heu_open_create_survives_write_failure_witness:
  "HEU_CREATE AND HEU_CREATE \<noteq> 0
   \<and> paths_fit no_files_env (Some ''/tmp'') \<and> cannot_persist no_files_env
   \<and> fopen_wb no_files_env ''/tmp/01.ipdb'' = Inl (EOTHER 13)
   \<and> heu_open no_files_env (EOTHER 0) blank_heuristic (Some ''/tmp'') 6 ''ipdb'' HEU_CREATE
       = Inr \<lparr>ret = 0, errno_out = EOTHER 0,
              heu_out = \<lparr>provider = PdbProvider
                           \<lparr>aux = \<lparr>ts = 7, n_tile = 0, n_maprank = 0, n_perm = 0,
                                    aux_tiles = [], idxt = None\<rparr>,
                            mapped = False, tables = [[0]]\<rparr>,
                         hval = pdb_hval_wrapper, hdiff = pdb_hdiff_wrapper,
                         free = pdb_free_wrapper, heu_ts = 6, morphism = 0, derived = 0\<rparr>\<rparr>
   \<and> paths_fit store_fails_env (Some ''/tmp'') \<and> cannot_persist store_fails_env
   \<and> fopen_wb store_fails_env ''/tmp/01.bpdb'' = Inr 3
   \<and> heu_open store_fails_env (EOTHER 0) blank_pdb_heuristic (Some ''/tmp'') 6 ''zbpdb'' HEU_CREATE
       = Inr \<lparr>ret = 0, errno_out = EOTHER 0,
              heu_out = \<lparr>provider = BitpdbProvider
                           \<lparr>aux = \<lparr>ts = 7, n_tile = 0, n_maprank = 0, n_perm = 0,
                                    aux_tiles = [], idxt = None\<rparr>,
                            mapped = False, tables = [[0]]\<rparr>,
                         hval = bitpdb_hval_wrapper, hdiff = bitpdb_hdiff_wrapper,
                         free = bitpdb_free_wrapper, heu_ts = 6, morphism = 2, derived = 0\<rparr>\<rparr>"
proof -
  let ?D = "drivers :: (string \<times> unit heu_driver \<times> 32 word) list"
  let ?D' = "drivers :: (string \<times> patterndb heu_driver \<times> 32 word) list"
  let ?pdb = "\<lambda>t. \<lparr>aux = \<lparr>ts = t, n_tile = 0, n_maprank = 0, n_perm = 0,
      aux_tiles = [], idxt = None\<rparr>, mapped = False, tables = []\<rparr>"
  have c: "HEU_CREATE AND HEU_CREATE \<noteq> 0" by (simp add: HEU_CREATE_def)
  have r: "tileset_remove 6 ZERO_TILE = 6" "tileset_add 6 ZERO_TILE = 7"
    by (simp_all add: tileset_remove_def tileset_add_def ZERO_TILE_def)
  have nm: "HEU_CREATE AND HEU_NOMORPH = 0" by (simp add: HEU_CREATE_def HEU_NOMORPH_def)
  have h7: "tileset_has 7 ZERO_TILE" "\<not> tileset_has 6 ZERO_TILE"
    by (simp_all add: tileset_has_def ZERO_TILE_def)
  have k: "\<exists>d \<in> set ?D. ''ipdb'' = fst d" by (simp add: drivers_def)
  have n: "\<forall>path. isl (open_rdonly no_files_env path) \<and> isl (fopen_rb no_files_env path)"
    by (simp add: no_files_env_def)
  have f: "paths_fit no_files_env (Some ''/tmp'')"
    by (auto simp: paths_fit_def no_files_env_def pathbuf_of_def)
  have p: "cannot_persist no_files_env" by (simp add: cannot_persist_def no_files_env_def)
  have m: "morph_tileset no_files_env 6 HEU_CREATE
      = \<lparr>morphts = 6, zmorphts = 6, morph = 0, zmorph = 0, morphtsstr = ''01'',
         zmorphtsstr = ''01''\<rparr>"
    by (simp add: morph_tileset_def nm Let_def no_files_env_def)
  have a: "pdb_allocate no_files_env
      (created_tileset (morph_tileset no_files_env (tileset_remove 6 ZERO_TILE) HEU_CREATE) ''ipdb'')
      = Inr (?pdb 7)"
    by (simp add: r m created_tileset_def zero_aware_def) (simp add: no_files_env_def)
  have v: "bit_packed ''ipdb'' \<longrightarrow>
      bitpdb_from_pdb no_files_env (pdb_generate no_files_env (?pdb 7)) = Inr ()"
    by (simp add: no_files_env_def)
  have w: "fopen_wb no_files_env ''/tmp/01.ipdb'' = Inl (EOTHER 13)"
    by (simp add: no_files_env_def)
  have e1: "heu_open no_files_env (EOTHER 0) blank_heuristic (Some ''/tmp'') 6 ''ipdb'' HEU_CREATE
       = Inr \<lparr>ret = 0, errno_out = EOTHER 0,
              heu_out = \<lparr>provider = PdbProvider
                           \<lparr>aux = \<lparr>ts = 7, n_tile = 0, n_maprank = 0, n_perm = 0,
                                    aux_tiles = [], idxt = None\<rparr>,
                            mapped = False, tables = [[0]]\<rparr>,
                         hval = pdb_hval_wrapper, hdiff = pdb_hdiff_wrapper,
                         free = pdb_free_wrapper, heu_ts = 6, morphism = 0, derived = 0\<rparr>\<rparr>"
    unfolding heu_open_create_survives_write_failure [OF c k n f a v p, of "EOTHER 0" blank_heuristic]
    by (simp add: r m created_heuristic_def created_provider_def bit_packed_def zero_aware_def
        blank_heuristic_def) (simp add: no_files_env_def)
  have k': "\<exists>d \<in> set ?D'. ''zbpdb'' = fst d" by (simp add: drivers_def)
  have n': "\<forall>path. isl (open_rdonly store_fails_env path) \<and> isl (fopen_rb store_fails_env path)"
    by (simp add: store_fails_env_def)
  have f': "paths_fit store_fails_env (Some ''/tmp'')"
    by (auto simp: paths_fit_def store_fails_env_def pathbuf_of_def)
  have p': "cannot_persist store_fails_env" by (simp add: cannot_persist_def store_fails_env_def)
  have m': "morph_tileset store_fails_env 6 HEU_CREATE
      = \<lparr>morphts = 6, zmorphts = 6, morph = 1, zmorph = 2, morphtsstr = ''01'',
         zmorphtsstr = ''01''\<rparr>"
    by (simp add: morph_tileset_def nm Let_def store_fails_env_def r h7)
  have a': "pdb_allocate store_fails_env
      (created_tileset (morph_tileset store_fails_env (tileset_remove 6 ZERO_TILE) HEU_CREATE)
         ''zbpdb'')
      = Inr (?pdb 7)"
    by (simp add: r m' created_tileset_def zero_aware_def) (simp add: store_fails_env_def)
  have v': "bit_packed ''zbpdb'' \<longrightarrow>
      bitpdb_from_pdb store_fails_env (pdb_generate store_fails_env (?pdb 7))
        = Inr ((?pdb 7)\<lparr>tables := [[0]]\<rparr>)"
    by (simp add: store_fails_env_def)
  have w': "fopen_wb store_fails_env ''/tmp/01.bpdb'' = Inr 3"
    by (simp add: store_fails_env_def)
  have e2: "heu_open store_fails_env (EOTHER 0) blank_pdb_heuristic (Some ''/tmp'') 6 ''zbpdb'' HEU_CREATE
       = Inr \<lparr>ret = 0, errno_out = EOTHER 0,
              heu_out = \<lparr>provider = BitpdbProvider
                           \<lparr>aux = \<lparr>ts = 7, n_tile = 0, n_maprank = 0, n_perm = 0,
                                    aux_tiles = [], idxt = None\<rparr>,
                            mapped = False, tables = [[0]]\<rparr>,
                         hval = bitpdb_hval_wrapper, hdiff = bitpdb_hdiff_wrapper,
                         free = bitpdb_free_wrapper, heu_ts = 6, morphism = 2, derived = 0\<rparr>\<rparr>"
    unfolding heu_open_create_survives_write_failure [OF c k' n' f' a' v' p', of "EOTHER 0"
        blank_pdb_heuristic]
    by (simp add: r m' created_heuristic_def created_provider_def bit_packed_def zero_aware_def
        blank_pdb_heuristic_def)
  from c f p w e1 f' p' w' e2 show ?thesis by (intro conjI)
qed

end
